theory Spec2Isabelle
  imports Main "HOL-Library.AList"
begin

section \<open>Python values used by the converter\<close>

text \<open>
  A Python \<open>str\<close> is a sequence of Unicode code points; a code point is a natural number.
  \<open>bytes\<close> are numbers below 256. The syntax selector and the class names of the entities
  are ASCII identifiers and are kept as HOL strings.
\<close>

type_synonym ustring = "nat list"
type_synonym byte = nat

definition ustr :: "string \<Rightarrow> ustring" where
  "ustr s = map of_char s"

definition nl :: nat where
  "nl = 10"

definition dq :: nat where
  "dq = 34"

datatype error =
  UnicodeEncodeError | UnicodeDecodeError | KeyError | IndexError | AttributeError

subsection \<open>The codec \<open>utf-16-le\<close>\<close>

text \<open>
  \<open>str.encode('utf-16-le')\<close>: a code point below \<open>0x10000\<close> is one 16-bit unit, a code
  point from \<open>0x10000\<close> on is a surrogate pair, every unit is written low byte first. A lone
  surrogate raises UnicodeEncodeError. Numbers from \<open>0x110000\<close> on are no code points; no
  Python string holds them, and the model refuses them with the same error.
\<close>

definition unit_bytes :: "nat \<Rightarrow> byte list" where
  "unit_bytes u = [u mod 256, u div 256]"

definition encode_char :: "nat \<Rightarrow> error + byte list" where
  "encode_char c =
     (if c < 0xD800 \<or> (0xE000 \<le> c \<and> c < 0x10000) then Inr (unit_bytes c)
      else if 0x10000 \<le> c \<and> c < 0x110000 then
        Inr (unit_bytes (0xD800 + (c - 0x10000) div 0x400) @
             unit_bytes (0xDC00 + (c - 0x10000) mod 0x400))
      else Inl UnicodeEncodeError)"

fun encode :: "ustring \<Rightarrow> error + byte list" where
  "encode [] = Inr []"
| "encode (c # cs) =
     (case encode_char c of
        Inl e \<Rightarrow> Inl e
      | Inr bs \<Rightarrow> (case encode cs of Inl e \<Rightarrow> Inl e | Inr rest \<Rightarrow> Inr (bs @ rest)))"

text \<open>
  \<open>bytes.decode('utf-16-le')\<close>, strict: an odd trailing byte, a low surrogate with no high
  surrogate before it, and a high surrogate not followed by a low one raise
  UnicodeDecodeError.
\<close>

fun units_of_bytes :: "byte list \<Rightarrow> error + nat list" where
  "units_of_bytes [] = Inr []"
| "units_of_bytes [b] = Inl UnicodeDecodeError"
| "units_of_bytes (lo # hi # bs) =
     (case units_of_bytes bs of Inl e \<Rightarrow> Inl e | Inr us \<Rightarrow> Inr ((lo + 256 * hi) # us))"

fun decode_units :: "nat list \<Rightarrow> error + ustring" where
  "decode_units [] = Inr []"
| "decode_units (u # us) =
     (if u < 0xD800 \<or> 0xE000 \<le> u then
        (case decode_units us of Inl e \<Rightarrow> Inl e | Inr cs \<Rightarrow> Inr (u # cs))
      else if u < 0xDC00 then
        (case us of
           [] \<Rightarrow> Inl UnicodeDecodeError
         | l # rest \<Rightarrow>
             if 0xDC00 \<le> l \<and> l < 0xE000 then
               (case decode_units rest of
                  Inl e \<Rightarrow> Inl e
                | Inr cs \<Rightarrow> Inr ((0x10000 + (u - 0xD800) * 0x400 + (l - 0xDC00)) # cs))
             else Inl UnicodeDecodeError)
      else Inl UnicodeDecodeError)"

definition decode :: "byte list \<Rightarrow> error + ustring" where
  "decode bs = (case units_of_bytes bs of Inl e \<Rightarrow> Inl e | Inr us \<Rightarrow> decode_units us)"

subsection \<open>Slices\<close>

text \<open>
  \<open>b[i:j]\<close> with Python's rules: a negative bound counts from the end, every bound is
  clamped to the length, \<open>None\<close> as upper bound is the length, and a slice whose upper
  bound is below its lower bound is empty.
\<close>

definition slice_index :: "nat \<Rightarrow> int \<Rightarrow> nat" where
  "slice_index n i =
     (if i < 0 then (if int n + i < 0 then 0 else nat (int n + i))
      else if int n < i then n else nat i)"

definition slice :: "'a list \<Rightarrow> int \<Rightarrow> int option \<Rightarrow> 'a list" where
  "slice xs i j =
     (let n = length xs;
          lo = slice_index n i;
          hi = (case j of None \<Rightarrow> n | Some j' \<Rightarrow> slice_index n j')
      in take (hi - lo) (drop lo xs))"

subsection \<open>\<open>html.escape\<close>\<close>

text \<open>
  The standard library's \<open>escape(s, quote=True)\<close> is five calls of \<open>str.replace\<close> on one
  character each, the ampersand first. Called on a value that is no string (an integer, a
  missing attribute) it raises AttributeError.
\<close>

definition replace :: "nat \<Rightarrow> ustring \<Rightarrow> ustring \<Rightarrow> ustring" where
  "replace old new s = concat (map (\<lambda>c. if c = old then new else [c]) s)"

definition escape :: "ustring \<Rightarrow> ustring" where
  "escape s =
     replace 39 (ustr ''&#x27;'')
       (replace dq (ustr ''&quot;'')
         (replace 62 (ustr ''&gt;'')
           (replace 60 (ustr ''&lt;'')
             (replace 38 (ustr ''&amp;'') s))))"

datatype attr = Absent | IntVal int | StrVal ustring

definition escape_attr :: "attr \<Rightarrow> error + ustring" where
  "escape_attr a = (case a of StrVal s \<Rightarrow> Inr (escape s) | _ \<Rightarrow> Inl AttributeError)"

section \<open>Data model\<close>

text \<open>
  An entity is any object with a class name, an offset and a length in 16-bit units, and
  the attributes its kind carries (\<open>url\<close>, \<open>language\<close>, \<open>user_id\<close>).
\<close>

record entity =
  ename :: string
  offset :: int
  length_e :: int
  url :: attr
  language :: attr
  user_id :: attr

datatype tag = Tag (opening_of: ustring) (closing_of: ustring)

record position_change =
  to_open :: "tag list"
  to_close :: "tag list"
  br :: bool

type_synonym positions = "(int \<times> position_change) list"

datatype tag_entry =
  NoTag | Static tag | Dynamic "entity \<Rightarrow> ustring \<Rightarrow> error + tag"

type_synonym syntax_dict = "string \<Rightarrow> tag_entry option"

record converter =
  message :: ustring
  entities :: "entity list option"
  output_text :: ustring
  message_b16 :: "byte list"
  positions :: positions

definition init :: "ustring \<Rightarrow> entity list option \<Rightarrow> error + converter" where
  "init msg ents =
     (case encode msg of
        Inl e \<Rightarrow> Inl e
      | Inr b \<Rightarrow> Inr \<lparr>message = msg, entities = ents, output_text = [],
                     message_b16 = b, positions = []\<rparr>)"

section \<open>Tag dictionaries (\<open>set_syntax_dict\<close>)\<close>

text \<open>
  A dictionary entry is \<open>None\<close> (\<open>NoTag\<close>), a fixed tag, or a function of the entity and
  the text it covers. The functions interpolate \<open>escape(s)\<close> or the escaped attribute of
  the entity into the tag.
\<close>

definition on_attr :: "attr \<Rightarrow> (ustring \<Rightarrow> tag) \<Rightarrow> error + tag" where
  "on_attr a mk = (case escape_attr a of Inl x \<Rightarrow> Inl x | Inr v \<Rightarrow> Inr (mk v))"

definition docuwiki_dict :: syntax_dict where
  "docuwiki_dict = map_of
     [(''MessageEntityBankCard'', NoTag),
      (''MessageEntityBlockquote'', Static (Tag (ustr ''> '') [])),
      (''MessageEntityBold'', Static (Tag (ustr ''**'') (ustr ''**''))),
      (''MessageEntityBotCommand'', NoTag),
      (''MessageEntityCashtag'', NoTag),
      (''MessageEntityCode'', Static (Tag (nl # ustr ''  '') [])),
      (''MessageEntityCustomEmoji'', NoTag),
      (''MessageEntityEmail'',
         Dynamic (\<lambda>e s. Inr (Tag (ustr ''[[mailto:'' @ escape s @ ustr ''|'') (ustr '']]'')))),
      (''MessageEntityHashtag'', NoTag),
      (''MessageEntityItalic'', Static (Tag (ustr ''//'') (ustr ''//''))),
      (''MessageEntityMention'',
         Dynamic (\<lambda>e s. Inr (Tag (ustr ''[[https://t.me/'' @ escape s @ ustr ''|'') (ustr '']]'')))),
      (''MessageEntityMentionName'',
         Dynamic (\<lambda>e s. on_attr (user_id e)
           (\<lambda>v. Tag (ustr ''[[https://t.me/'' @ v @ ustr ''|'') (ustr '']]'')))),
      (''MessageEntityPhone'',
         Dynamic (\<lambda>e s. Inr (Tag (ustr ''[[tel:'' @ escape s @ ustr ''|'') (ustr '']]'')))),
      (''MessageEntityPre'',
         Dynamic (\<lambda>e s. on_attr (language e)
           (\<lambda>v. Tag (ustr ''<pre language='' @ [dq] @ v @ [dq] @ ustr ''>'') (ustr ''</pre>'')))),
      (''MessageEntitySpoiler'', Static (Tag (ustr ''??'') (ustr ''??''))),
      (''MessageEntityStrike'', Static (Tag (ustr ''<del>'') (ustr ''</del>>''))),
      (''MessageEntityTextUrl'',
         Dynamic (\<lambda>e s. on_attr (url e) (\<lambda>v. Tag (ustr ''[['' @ v @ ustr ''|'') (ustr '']]'')))),
      (''MessageEntityUnderline'', Static (Tag (ustr ''__'') (ustr ''__''))),
      (''MessageEntityUnknown'', NoTag),
      (''MessageEntityUrl'',
         Dynamic (\<lambda>e s. Inr (Tag (ustr ''[['' @ escape s @ ustr ''|'') (ustr '']]'')))),
      (''TagsParagraph'', Static (Tag [] [nl])),
      (''TagsNewline'', Static (Tag [] [nl]))]"

definition markdown_dict :: syntax_dict where
  "markdown_dict = map_of
     [(''MessageEntityBankCard'', NoTag),
      (''MessageEntityBlockquote'', Static (Tag (ustr ''> '') [])),
      (''MessageEntityBold'', Static (Tag (ustr ''**'') (ustr ''**''))),
      (''MessageEntityBotCommand'', NoTag),
      (''MessageEntityCashtag'', NoTag),
      (''MessageEntityCode'', Static (Tag (ustr ''`'') (ustr ''`''))),
      (''MessageEntityCustomEmoji'', NoTag),
      (''MessageEntityEmail'',
         Dynamic (\<lambda>e s. Inr (Tag (ustr ''['') (ustr ''](mailto:'' @ escape s @ ustr '')'')))),
      (''MessageEntityHashtag'', NoTag),
      (''MessageEntityItalic'', Static (Tag (ustr ''*'') (ustr ''*''))),
      (''MessageEntityMention'',
         Dynamic (\<lambda>e s. Inr (Tag (ustr ''['') (ustr ''](https://t.me/'' @ escape s @ ustr '')'')))),
      (''MessageEntityMentionName'',
         Dynamic (\<lambda>e s. on_attr (user_id e)
           (\<lambda>v. Tag (ustr ''['') (ustr ''](https://t.me/'' @ v @ ustr '')'')))),
      (''MessageEntityPhone'',
         Dynamic (\<lambda>e s. Inr (Tag (ustr ''['') (ustr ''](tel:'' @ escape s @ ustr '')'')))),
      (''MessageEntityPre'',
         Dynamic (\<lambda>e s. on_attr (language e)
           (\<lambda>v. Tag (ustr ''```'' @ v @ [nl]) (nl # ustr ''```'')))),
      (''MessageEntitySpoiler'', Static (Tag (ustr ''||'') (ustr ''||''))),
      (''MessageEntityStrike'', Static (Tag (ustr ''~~'') (ustr ''~~''))),
      (''MessageEntityTextUrl'',
         Dynamic (\<lambda>e s. on_attr (url e) (\<lambda>v. Tag (ustr ''['') (ustr ''](tel:'' @ v @ ustr '')'')))),
      (''MessageEntityUnderline'', Static (Tag (ustr ''__'') (ustr ''__''))),
      (''MessageEntityUnknown'', NoTag),
      (''MessageEntityUrl'',
         Dynamic (\<lambda>e s. Inr (Tag (ustr ''['') (ustr '']('' @ escape s @ ustr '')'')))),
      (''TagsParagraph'', Static (Tag [] [nl])),
      (''TagsNewline'', Static (Tag [] [nl]))]"

definition html_dict :: syntax_dict where
  "html_dict = map_of
     [(''MessageEntityBankCard'', NoTag),
      (''MessageEntityBlockquote'', Static (Tag (ustr ''<blockquote>'') (ustr ''</blockquote>''))),
      (''MessageEntityBold'', Static (Tag (ustr ''<b>'') (ustr ''</b>''))),
      (''MessageEntityBotCommand'', NoTag),
      (''MessageEntityCashtag'', NoTag),
      (''MessageEntityCode'', Static (Tag (ustr ''<pre>'') (ustr ''</pre>''))),
      (''MessageEntityCustomEmoji'', NoTag),
      (''MessageEntityEmail'',
         Dynamic (\<lambda>e s. Inr (Tag (ustr ''<a href='' @ [dq] @ ustr ''mailto:'' @ escape s @ [dq] @ ustr ''>'')
                                 (ustr ''</a>'')))),
      (''MessageEntityHashtag'', Static (Tag (ustr ''<a href='' @ [dq] @ ustr ''#'' @ [dq] @ ustr ''>'') (ustr ''</a>''))),
      (''MessageEntityItalic'', Static (Tag (ustr ''<i>'') (ustr ''</i>''))),
      (''MessageEntityMention'',
         Dynamic (\<lambda>e s. Inr (Tag (ustr ''<a href='' @ [dq] @ ustr ''https://t.me/'' @ escape s @ [dq] @ ustr ''>'')
                                 (ustr ''</a>'')))),
      (''MessageEntityMentionName'',
         Dynamic (\<lambda>e s. on_attr (user_id e)
           (\<lambda>v. Tag (ustr ''<a href='' @ [dq] @ ustr ''https://t.me/'' @ v @ [dq] @ ustr ''>'') (ustr ''</a>'')))),
      (''MessageEntityPhone'',
         Dynamic (\<lambda>e s. Inr (Tag (ustr ''<a href='' @ [dq] @ ustr ''tel:'' @ escape s @ [dq] @ ustr ''>'')
                                 (ustr ''</a>'')))),
      (''MessageEntityPre'',
         Dynamic (\<lambda>e s. on_attr (language e)
           (\<lambda>v. Tag (ustr ''<pre language='' @ [dq] @ v @ [dq] @ ustr ''>'') (ustr ''</pre>'')))),
      (''MessageEntitySpoiler'', Static (Tag (ustr ''['') (ustr '']''))),
      (''MessageEntityStrike'', Static (Tag (ustr ''<s>'') (ustr ''</s>''))),
      (''MessageEntityTextUrl'',
         Dynamic (\<lambda>e s. on_attr (url e)
           (\<lambda>v. Tag (ustr ''<a href='' @ [dq] @ v @ [dq] @ ustr ''>'') (ustr ''</a>'')))),
      (''MessageEntityUnderline'',
         Static (Tag (ustr ''<span style='' @ [dq] @ ustr ''text-decoration: underline'' @ [dq] @ ustr ''>'')
                     (ustr ''</span>''))),
      (''MessageEntityUnknown'', NoTag),
      (''MessageEntityUrl'',
         Dynamic (\<lambda>e s. Inr (Tag (ustr ''<a href='' @ [dq] @ escape s @ [dq] @ ustr ''>'') (ustr ''</a>'')))),
      (''TagsParagraph'', Static (Tag (ustr ''<p>'') (ustr ''</p>''))),
      (''TagsNewline'', Static (Tag [] (ustr ''<br />'')))]"

text \<open>The default case: plain text. The block quote marks are U+00AB and U+00BB.\<close>

definition text_dict :: syntax_dict where
  "text_dict = map_of
     [(''MessageEntityBankCard'', NoTag),
      (''MessageEntityBlockquote'', Static (Tag [171] [187])),
      (''MessageEntityBold'', NoTag),
      (''MessageEntityBotCommand'', NoTag),
      (''MessageEntityCashtag'', NoTag),
      (''MessageEntityCode'', NoTag),
      (''MessageEntityCustomEmoji'', NoTag),
      (''MessageEntityEmail'', NoTag),
      (''MessageEntityHashtag'', NoTag),
      (''MessageEntityItalic'', NoTag),
      (''MessageEntityMention'', NoTag),
      (''MessageEntityMentionName'',
         Dynamic (\<lambda>e s. on_attr (user_id e) (\<lambda>v. Tag [] (ustr '' ('' @ v @ ustr '')'')))),
      (''MessageEntityPhone'', NoTag),
      (''MessageEntityPre'', NoTag),
      (''MessageEntitySpoiler'', NoTag),
      (''MessageEntityStrike'', NoTag),
      (''MessageEntityTextUrl'',
         Dynamic (\<lambda>e s. on_attr (url e) (\<lambda>v. Tag [] (ustr '' ('' @ v @ ustr '')'')))),
      (''MessageEntityUnderline'', NoTag),
      (''MessageEntityUnknown'', NoTag),
      (''MessageEntityUrl'', NoTag),
      (''TagsParagraph'', Static (Tag [] [nl])),
      (''TagsNewline'', Static (Tag [] [nl]))]"

text \<open>
  \<open>str.lower\<close> on a string of 8-bit characters: the letters A to Z and the capital letters
  of Latin-1 (U+00C0 to U+00DE without the multiplication sign) move up by 32.
\<close>

definition lower_char :: "char \<Rightarrow> char" where
  "lower_char c =
     (let n = (of_char c :: nat)
      in if (65 \<le> n \<and> n \<le> 90) \<or> (192 \<le> n \<and> n \<le> 222 \<and> n \<noteq> 215)
         then char_of (n + 32) else c)"

definition lower :: "string \<Rightarrow> string" where
  "lower s = map lower_char s"

definition set_syntax_dict :: "string \<Rightarrow> syntax_dict" where
  "set_syntax_dict ty =
     (let t = lower ty
      in if t = ''docuwiki'' \<or> t = ''dw'' then docuwiki_dict
         else if t = ''markdown'' \<or> t = ''md'' then markdown_dict
         else if t = ''html'' then html_dict
         else text_dict)"

section \<open>The position index\<close>

text \<open>
  \<open>_positions\<close> is a dictionary from byte offsets to position changes; it is an
  association list in insertion order, and a new key goes to its end.
\<close>

definition ensure_position_exists :: "int \<Rightarrow> positions \<Rightarrow> positions" where
  "ensure_position_exists i ps =
     (if map_of ps i = None
      then ps @ [(i, \<lparr>to_open = [], to_close = [], br = False\<rparr>)]
      else ps)"

text \<open>
  \<open>to_open.append(tag)\<close> at the start and \<open>to_close.insert(0, tag)\<close> at the end; both
  keys exist, \<open>_ensure_position_exists\<close> has just been called on them.
\<close>

definition add_tag :: "int \<Rightarrow> int \<Rightarrow> tag \<Rightarrow> positions \<Rightarrow> positions" where
  "add_tag start stop t ps =
     AList.map_entry stop (\<lambda>pc. pc\<lparr>to_close := t # to_close pc\<rparr>)
       (AList.map_entry start (\<lambda>pc. pc\<lparr>to_open := to_open pc @ [t]\<rparr>) ps)"

definition prepare_entity ::
  "syntax_dict \<Rightarrow> byte list \<Rightarrow> entity \<Rightarrow> positions \<Rightarrow> error + positions" where
  "prepare_entity d b16 e ps =
     (let start = offset e * 2;
          stop = (offset e + length_e e) * 2;
          ps1 = ensure_position_exists stop (ensure_position_exists start ps)
      in case d (ename e) of
           None \<Rightarrow> Inl KeyError
         | Some NoTag \<Rightarrow> Inr ps1
         | Some (Static t) \<Rightarrow> Inr (add_tag start stop t ps1)
         | Some (Dynamic f) \<Rightarrow>
             (case decode (slice b16 start (Some stop)) of
                Inl x \<Rightarrow> Inl x
              | Inr txt \<Rightarrow>
                  (case f e txt of
                     Inl x \<Rightarrow> Inl x
                   | Inr t \<Rightarrow> Inr (add_tag start stop t ps1))))"

fun prepare_entities ::
  "syntax_dict \<Rightarrow> byte list \<Rightarrow> entity list \<Rightarrow> positions \<Rightarrow> error + positions" where
  "prepare_entities d b16 [] ps = Inr ps"
| "prepare_entities d b16 (e # es) ps =
     (case prepare_entity d b16 e ps of
        Inl x \<Rightarrow> Inl x
      | Inr ps' \<Rightarrow> prepare_entities d b16 es ps')"

definition prepare_entity_positions_utf16le ::
  "syntax_dict \<Rightarrow> byte list \<Rightarrow> entity list option \<Rightarrow> positions \<Rightarrow> error + positions" where
  "prepare_entity_positions_utf16le d b16 ents ps =
     (case ents of None \<Rightarrow> Inr ps | Some es \<Rightarrow> prepare_entities d b16 es ps)"

definition set_br :: "int \<Rightarrow> positions \<Rightarrow> positions" where
  "set_br i ps = AList.map_entry i (\<lambda>pc. pc\<lparr>br := True\<rparr>) ps"

text \<open>
  \<open>_prepare_br_positions\<close>: the loop over \<open>range(len(message))\<close>; the byte offset of a
  line break is the length of the encoded prefix before it.
\<close>

fun prepare_br_loop :: "ustring \<Rightarrow> nat list \<Rightarrow> positions \<Rightarrow> error + positions" where
  "prepare_br_loop msg [] ps = Inr ps"
| "prepare_br_loop msg (i # rest) ps =
     (if msg ! i = nl then
        (case encode (take i msg) of
           Inl x \<Rightarrow> Inl x
         | Inr b \<Rightarrow>
             prepare_br_loop msg rest
               (set_br (int (length b)) (ensure_position_exists (int (length b)) ps)))
      else prepare_br_loop msg rest ps)"

definition prepare_br_positions :: "ustring \<Rightarrow> positions \<Rightarrow> error + positions" where
  "prepare_br_positions msg ps = prepare_br_loop msg [0..<length msg] ps"

section \<open>Rendering (\<open>to_syntax\<close>)\<close>

text \<open>
  The state of the main loop is the list \<open>opened_tags\<close> (its top is its last element) and
  the output so far. \<open>opened_tags.pop()\<close> on an empty list raises IndexError.
\<close>

type_synonym render_state = "tag list \<times> ustring"

fun close_tags :: "tag list \<Rightarrow> render_state \<Rightarrow> error + render_state" where
  "close_tags [] st = Inr st"
| "close_tags (t # ts) (opened_tags, out) =
     (if opened_tags = [] then Inl IndexError
      else close_tags ts (butlast opened_tags, out @ closing_of t))"

fun open_tags :: "tag list \<Rightarrow> render_state \<Rightarrow> render_state" where
  "open_tags [] st = st"
| "open_tags (t # ts) (opened_tags, out) = open_tags ts (opened_tags @ [t], out @ opening_of t)"

text \<open>
  \<open>self._ENTITIES_TO_TAG['MessageEntityCode'] in opened_tags\<close>: the entry is looked up
  (KeyError when the key is missing) and compared by value with every open tag; \<open>None\<close>
  and a function are equal to no tag.
\<close>

definition code_in_opened :: "syntax_dict \<Rightarrow> tag list \<Rightarrow> error + bool" where
  "code_in_opened d opened_tags =
     (case d ''MessageEntityCode'' of
        None \<Rightarrow> Inl KeyError
      | Some (Static t) \<Rightarrow> Inr (t \<in> set opened_tags)
      | Some _ \<Rightarrow> Inr False)"

definition line_break ::
  "syntax_dict \<Rightarrow> tag \<Rightarrow> tag \<Rightarrow> tag list \<Rightarrow> error + ustring" where
  "line_break d tag_paragraph tag_newline opened_tags =
     (case code_in_opened d opened_tags of
        Inl x \<Rightarrow> Inl x
      | Inr True \<Rightarrow> Inr (closing_of tag_newline)
      | Inr False \<Rightarrow> Inr (closing_of tag_paragraph @ opening_of tag_paragraph))"

text \<open>One pass of the loop body for the position change of an offset and its text.\<close>

definition render_position ::
  "syntax_dict \<Rightarrow> tag \<Rightarrow> tag \<Rightarrow> position_change \<Rightarrow> ustring \<Rightarrow> render_state
     \<Rightarrow> error + render_state" where
  "render_position d tag_paragraph tag_newline pc unchanged_part st =
     (case close_tags (to_close pc) st of
        Inl x \<Rightarrow> Inl x
      | Inr (opened1, out1) \<Rightarrow>
          (case (if br pc then line_break d tag_paragraph tag_newline opened1 else Inr []) of
             Inl x \<Rightarrow> Inl x
           | Inr brk \<Rightarrow>
               (case open_tags (to_open pc) (opened1, out1 @ brk) of
                  (opened2, out2) \<Rightarrow>
                    Inr (opened2, out2 @ escape (replace nl [] unchanged_part)))))"

text \<open>
  The main loop over \<open>separations_points\<close>. \<open>separations_points[pos + 1]\<close> raises
  IndexError past the last point; the slice is decoded before any tag is closed.
\<close>

fun render_loop ::
  "syntax_dict \<Rightarrow> tag \<Rightarrow> tag \<Rightarrow> byte list \<Rightarrow> positions \<Rightarrow> int list \<Rightarrow> render_state
     \<Rightarrow> error + render_state" where
  "render_loop d tag_paragraph tag_newline b16 ps [] st = Inr st"
| "render_loop d tag_paragraph tag_newline b16 ps (index # rest) st =
     (case (if index \<noteq> int (length b16)
            then (case rest of [] \<Rightarrow> Inl IndexError | n # _ \<Rightarrow> Inr (Some n))
            else Inr None) of
        Inl x \<Rightarrow> Inl x
      | Inr next_index \<Rightarrow>
          (case decode (slice b16 index next_index) of
             Inl x \<Rightarrow> Inl x
           | Inr unchanged_part \<Rightarrow>
               (case map_of ps index of
                  None \<Rightarrow> Inl KeyError
                | Some pc \<Rightarrow>
                    (case render_position d tag_paragraph tag_newline pc unchanged_part st of
                       Inl x \<Rightarrow> Inl x
                     | Inr st' \<Rightarrow> render_loop d tag_paragraph tag_newline b16 ps rest st'))))"

text \<open>\<open>dict.get(key, default)\<close> for the two break tags.\<close>

definition get_tag :: "syntax_dict \<Rightarrow> string \<Rightarrow> tag \<Rightarrow> tag" where
  "get_tag d k dflt = (case d k of Some (Static t) \<Rightarrow> t | _ \<Rightarrow> dflt)"

definition falsy :: "entity list option \<Rightarrow> bool" where
  "falsy ents = (ents = None \<or> ents = Some [])"

text \<open>
  \<open>to_syntax\<close> returns the string and leaves the object with its new \<open>output\<close> and
  \<open>_positions\<close>. An exception ends the call; the object it leaves behind is not
  described.
\<close>

definition to_syntax :: "string \<Rightarrow> converter \<Rightarrow> error + (ustring \<times> converter)" where
  "to_syntax ty self =
     (if falsy (entities self) \<and> nl \<notin> set (message self)
      then Inr (message self, self\<lparr>output_text := message self\<rparr>)
      else
        let d = set_syntax_dict ty;
            tag_paragraph = get_tag d ''TagsParagraph'' (Tag [] []);
            tag_newline = get_tag d ''TagsNewline'' (Tag [] [nl]);
            ps0 = ensure_position_exists (int (length (message_b16 self)))
                    (ensure_position_exists 0 (positions self))
        in case prepare_entity_positions_utf16le d (message_b16 self) (entities self) ps0 of
             Inl x \<Rightarrow> Inl x
           | Inr ps1 \<Rightarrow>
               (case prepare_br_positions (message self) ps1 of
                  Inl x \<Rightarrow> Inl x
                | Inr ps2 \<Rightarrow>
                    (case render_loop d tag_paragraph tag_newline (message_b16 self) ps2
                            (sort (map fst ps2)) ([], output_text self) of
                       Inl x \<Rightarrow> Inl x
                     | Inr (opened_tags, out) \<Rightarrow>
                         let out' = (if opening_of tag_paragraph \<noteq> [] \<or> closing_of tag_paragraph \<noteq> []
                                     then opening_of tag_paragraph @ out @ closing_of tag_paragraph
                                     else out)
                         in Inr (out', self\<lparr>output_text := out', positions := ps2\<rparr>))))"

text \<open>The whole conversion: construct the object, then call \<open>to_syntax\<close> once.\<close>

definition convert :: "ustring \<Rightarrow> entity list option \<Rightarrow> string \<Rightarrow> error + ustring" where
  "convert msg ents ty =
     (case init msg ents of
        Inl x \<Rightarrow> Inl x
      | Inr self \<Rightarrow> (case to_syntax ty self of Inl x \<Rightarrow> Inl x | Inr (s, _) \<Rightarrow> Inr s))"

section \<open>Auxiliary notions for the proofs\<close>

text \<open>
  The bytes of a string whose code points can all be encoded, the code points that can be
  encoded, and the main loop run over a message cut into segments: the separation points
  are the byte offsets of the segment boundaries.
\<close>

definition char_bytes :: "nat \<Rightarrow> byte list" where
  "char_bytes c = (case encode_char c of Inl _ \<Rightarrow> [] | Inr b \<Rightarrow> b)"

definition enc :: "ustring \<Rightarrow> byte list" where
  "enc t = concat (map char_bytes t)"

definition valid :: "ustring \<Rightarrow> bool" where
  "valid t = list_all (\<lambda>c. c < 0xD800 \<or> (0xE000 \<le> c \<and> c < 0x110000)) t"

fun seg_keys :: "ustring \<Rightarrow> ustring list \<Rightarrow> int list" where
  "seg_keys p [] = [int (length (enc p))]"
| "seg_keys p (s # ss) = int (length (enc p)) # seg_keys (p @ s) ss"

fun render_segments ::
  "syntax_dict \<Rightarrow> tag \<Rightarrow> tag \<Rightarrow> positions \<Rightarrow> ustring \<Rightarrow> ustring list \<Rightarrow> render_state
     \<Rightarrow> error + render_state" where
  "render_segments d par nln ps p [] st =
     (case map_of ps (int (length (enc p))) of
        None \<Rightarrow> Inl KeyError
      | Some pc \<Rightarrow> render_position d par nln pc [] st)"
| "render_segments d par nln ps p (s # ss) st =
     (case map_of ps (int (length (enc p))) of
        None \<Rightarrow> Inl KeyError
      | Some pc \<Rightarrow>
          (case render_position d par nln pc s st of
             Inl x \<Rightarrow> Inl x
           | Inr st' \<Rightarrow> render_segments d par nln ps (p @ s) ss st'))"

fun nlkeys :: "ustring \<Rightarrow> ustring \<Rightarrow> int list" where
  "nlkeys p [] = []"
| "nlkeys p (c # cs) = (if c = nl then [int (length (enc p))] else []) @ nlkeys (p @ [c]) cs"

definition mark_br :: "positions \<Rightarrow> int \<Rightarrow> positions" where
  "mark_br ps k = set_br k (ensure_position_exists k ps)"

fun segs_acc :: "ustring \<Rightarrow> ustring \<Rightarrow> ustring list" where
  "segs_acc cur [] = [cur]"
| "segs_acc cur (c # cs) = (if c = nl then cur # segs_acc [c] cs else segs_acc (cur @ [c]) cs)"

definition no_change :: position_change where
  "no_change = \<lparr>to_open = [], to_close = [], br = False\<rparr>"

definition plain_char :: "tag \<Rightarrow> nat \<Rightarrow> ustring" where
  "plain_char par c = (if c = nl then closing_of par @ opening_of par else escape [c])"

definition resolve_tag :: "syntax_dict \<Rightarrow> byte list \<Rightarrow> entity \<Rightarrow> error + tag option" where
  "resolve_tag d b16 e =
     (case d (ename e) of
        None \<Rightarrow> Inl KeyError
      | Some NoTag \<Rightarrow> Inr None
      | Some (Static t) \<Rightarrow> Inr (Some t)
      | Some (Dynamic f) \<Rightarrow>
          (case decode (slice b16 (offset e * 2) (Some ((offset e + length_e e) * 2))) of
             Inl x \<Rightarrow> Inl x
           | Inr txt \<Rightarrow> (case f e txt of Inl x \<Rightarrow> Inl x | Inr t \<Rightarrow> Inr (Some t))))"

definition paragraph_tag :: "string \<Rightarrow> tag" where
  "paragraph_tag ty = get_tag (set_syntax_dict ty) ''TagsParagraph'' (Tag [] [])"

definition newline_tag :: "string \<Rightarrow> tag" where
  "newline_tag ty = get_tag (set_syntax_dict ty) ''TagsNewline'' (Tag [] [nl])"


definition entity :: "string \<Rightarrow> int \<Rightarrow> int \<Rightarrow> entity" where
  "entity name off len =
     \<lparr>ename = name, offset = off, length_e = len, url = Absent, language = Absent, user_id = Absent\<rparr>"

lemmas eval_defs =
  convert_def init_def to_syntax_def falsy_def ustr_def nl_def dq_def encode_char_def unit_bytes_def
  set_syntax_dict_def get_tag_def ensure_position_exists_def add_tag_def prepare_entity_def
  prepare_entity_positions_utf16le_def prepare_br_positions_def set_br_def upt_rec
  decode_def slice_def slice_index_def render_position_def line_break_def code_in_opened_def
  escape_def replace_def escape_attr_def on_attr_def entity_def Let_def

definition units :: "ustring \<Rightarrow> nat" where
  "units t = sum_list (map (\<lambda>c. if c < 0x10000 then 1 else 2) t)"

definition apply_entry :: "tag_entry option \<Rightarrow> entity \<Rightarrow> ustring \<Rightarrow> error + tag option" where
  "apply_entry entry e s =
     (case entry of
        None \<Rightarrow> Inl KeyError
      | Some NoTag \<Rightarrow> Inr None
      | Some (Static t) \<Rightarrow> Inr (Some t)
      | Some (Dynamic f) \<Rightarrow> (case f e s of Inl x \<Rightarrow> Inl x | Inr t \<Rightarrow> Inr (Some t)))"




definition pos_at :: "positions \<Rightarrow> int \<Rightarrow> position_change" where
  "pos_at ps k = (case map_of ps k of None \<Rightarrow> no_change | Some pc \<Rightarrow> pc)"

definition resolved :: "syntax_dict \<Rightarrow> byte list \<Rightarrow> entity \<Rightarrow> tag list" where
  "resolved d b16 e = (case resolve_tag d b16 e of Inr (Some t) \<Rightarrow> [t] | _ \<Rightarrow> [])"

definition opened_at :: "syntax_dict \<Rightarrow> byte list \<Rightarrow> entity list \<Rightarrow> int \<Rightarrow> tag list" where
  "opened_at d b16 es k = concat (map (resolved d b16) (filter (\<lambda>e. offset e * 2 = k) es))"

definition closed_at :: "syntax_dict \<Rightarrow> byte list \<Rightarrow> entity list \<Rightarrow> int \<Rightarrow> tag list" where
  "closed_at d b16 es k =
     concat (map (resolved d b16) (filter (\<lambda>e. (offset e + length_e e) * 2 = k) es))"

definition pieces :: "(ustring \<times> ustring) list \<Rightarrow> ustring" where
  "pieces xs = concat (map (\<lambda>(m, s). m @ escape (replace nl [] s)) xs)"

definition entity_list :: "entity list option \<Rightarrow> entity list" where
  "entity_list ents = (case ents of None \<Rightarrow> [] | Some es \<Rightarrow> es)"

section \<open>The codec and slices\<close>

lemma enc_simps: "enc [] = []" "enc (c # cs) = char_bytes c @ enc cs" "enc (a @ b) = enc a @ enc b"
  by (simp_all add: enc_def)

lemma valid_simps: "valid []" "valid (c # cs) = ((c < 0xD800 \<or> (0xE000 \<le> c \<and> c < 0x110000)) \<and> valid cs)"
  "valid (a @ b) = (valid a \<and> valid b)"
  by (simp_all add: valid_def)

lemma encode_char_valid:
  "c < 0xD800 \<or> (0xE000 \<le> c \<and> c < 0x110000) \<Longrightarrow> encode_char c = Inr (char_bytes c)"
  by (auto simp: char_bytes_def encode_char_def)

lemma encode_char_invalid:
  "\<not> (c < 0xD800 \<or> (0xE000 \<le> c \<and> c < 0x110000)) \<Longrightarrow> encode_char c = Inl UnicodeEncodeError"
  by (auto simp: encode_char_def)

lemma encode_valid: "valid t \<Longrightarrow> encode t = Inr (enc t)"
  by (induction t) (simp_all add: valid_simps enc_simps encode_char_valid)

lemma encode_Inr: "encode t = Inr b \<Longrightarrow> valid t \<and> b = enc t"
proof (induction t arbitrary: b)
  case Nil
  then show ?case by (simp add: valid_simps enc_simps)
next
  case (Cons c cs)
  show ?case
  proof (cases "c < 0xD800 \<or> (0xE000 \<le> c \<and> c < 0x110000)")
    case True
    with Cons show ?thesis
      by (auto simp: valid_simps enc_simps encode_char_valid split: sum.splits)
  next
    case False
    with Cons.prems show ?thesis
      by (simp add: encode_char_invalid)
  qed
qed

lemma length_char_bytes:
  "c < 0xD800 \<or> (0xE000 \<le> c \<and> c < 0x110000) \<Longrightarrow>
     length (char_bytes c) = (if c < 0x10000 then 2 else 4)"
  by (auto simp: char_bytes_def encode_char_def unit_bytes_def)

lemma even_length_enc: "valid t \<Longrightarrow> even (length (enc t))"
  by (induction t) (auto simp: valid_simps enc_simps length_char_bytes)

lemma enc_nonempty: "valid t \<Longrightarrow> t \<noteq> [] \<Longrightarrow> 0 < length (enc t)"
  by (cases t) (auto simp: valid_simps enc_simps length_char_bytes)

lemma decode_char_bytes:
  assumes "c < 0xD800 \<or> (0xE000 \<le> c \<and> c < 0x110000)" and "decode bs = Inr cs"
  shows "decode (char_bytes c @ bs) = Inr (c # cs)"
proof (cases "c < 0x10000")
  case True
  with assms show ?thesis
    by (auto simp: char_bytes_def encode_char_def unit_bytes_def decode_def split: sum.splits)
next
  case False
  define v where "v = c - 0x10000"
  have v: "v < 0x100000" "c = 0x10000 + v" using assms(1) False by (auto simp: v_def)
  have hi: "v div 0x400 < 0x400" using v by simp
  have lo: "v mod 0x400 < 0x400" by simp
  have u1: "(0xD800 + v div 0x400) mod 256 + 256 * ((0xD800 + v div 0x400) div 256) = 0xD800 + v div 0x400"
    by simp
  have u2: "(0xDC00 + v mod 0x400) mod 256 + 256 * ((0xDC00 + v mod 0x400) div 256) = 0xDC00 + v mod 0x400"
    by simp
  have cb: "char_bytes c = unit_bytes (0xD800 + v div 0x400) @ unit_bytes (0xDC00 + v mod 0x400)"
    using assms(1) False by (simp add: char_bytes_def encode_char_def v_def)
  obtain us where us: "units_of_bytes bs = Inr us" "decode_units us = Inr cs"
    using assms(2) by (auto simp: decode_def split: sum.splits)
  have "units_of_bytes (char_bytes c @ bs) = Inr ((0xD800 + v div 0x400) # (0xDC00 + v mod 0x400) # us)"
    unfolding cb unit_bytes_def using us(1) u1 u2 by simp
  moreover have "decode_units ((0xD800 + v div 0x400) # (0xDC00 + v mod 0x400) # us) = Inr (c # cs)"
    using hi lo us(2) v(2) by simp
  ultimately show ?thesis by (simp add: decode_def)
qed

lemma decode_enc: "valid t \<Longrightarrow> decode (enc t) = Inr t"
proof (induction t)
  case Nil
  then show ?case by (simp add: enc_simps decode_def)
next
  case (Cons c cs)
  then show ?case by (simp add: valid_simps enc_simps decode_char_bytes)
qed

lemma slice_mid:
  "slice (x @ y @ z) (int (length x)) (Some (int (length x + length y))) = y"
  by (simp add: slice_def slice_index_def Let_def)

lemma slice_end: "slice (x @ y) (int (length x)) None = y"
  by (simp add: slice_def slice_index_def Let_def)

lemma seg_keys_hd: "\<exists>ks. seg_keys p ss = int (length (enc p)) # ks"
  by (cases ss) simp_all

lemma sum_case_id: "(case x of Inl a \<Rightarrow> Inl a | Inr b \<Rightarrow> Inr b) = x"
  by (cases x) simp_all

lemma render_loop_segments:
  assumes "valid (p @ concat ss)" and "\<forall>s\<in>set ss. s \<noteq> []"
    and "b16 = enc (p @ concat ss)"
  shows "render_loop d par nln b16 ps (seg_keys p ss) st = render_segments d par nln ps p ss st"
  using assms
proof (induction ss arbitrary: p st)
  case Nil
  have "slice (enc p) (int (length (enc p))) None = []"
    by (simp add: slice_def slice_index_def)
  with Nil show ?case
    by (simp add: decode_def split: option.splits sum.splits)
next
  case (Cons s ss)
  have vs: "valid s" and sne: "s \<noteq> []" using Cons.prems by (simp_all add: valid_simps)
  have pos: "0 < length (enc s)" using vs sne by (rule enc_nonempty)
  obtain ks where ks: "seg_keys (p @ s) ss = int (length (enc (p @ s))) # ks"
    using seg_keys_hd by blast
  have b: "b16 = enc p @ enc s @ enc (concat ss)"
    using Cons.prems(3) by (simp add: enc_simps)
  have "length b16 = length (enc p) + length (enc s) + length (enc (concat ss))"
    unfolding b by simp
  with pos have ne: "int (length (enc p)) \<noteq> int (length b16)" by linarith
  have sl: "slice b16 (int (length (enc p))) (Some (int (length (enc (p @ s))))) = enc s"
    unfolding b using slice_mid [of "enc p" "enc s" "enc (concat ss)"] by (simp add: enc_simps)
  have dec: "decode (enc s) = Inr s" using vs by (rule decode_enc)
  have IH: "render_loop d par nln b16 ps (seg_keys (p @ s) ss) st' =
            render_segments d par nln ps (p @ s) ss st'" for st'
    using Cons.IH [of "p @ s" st'] Cons.prems by simp
  show ?case
    using ne sl dec IH ks by (simp split: option.splits sum.splits)
qed

section \<open>The fast path\<close>

lemma encode_invalid: "\<not> valid t \<Longrightarrow> encode t = Inl UnicodeEncodeError"
proof (induction t)
  case Nil
  then show ?case by (simp add: valid_simps)
next
  case (Cons c cs)
  show ?case
  proof (cases "c < 0xD800 \<or> (0xE000 \<le> c \<and> c < 0x110000)")
    case True
    with Cons show ?thesis by (simp add: valid_simps encode_char_valid)
  next
    case False
    then show ?thesis by (simp add: encode_char_invalid)
  qed
qed

text \<open>
  Claim C1, as the code has it. The constructor encodes the message as UTF-16 before any
  conversion, and a lone surrogate code point (U+D800 to U+DFFF) cannot be encoded. So a
  message with no line break and with no lone surrogate, converted with an empty or
  absent entity list, is returned as it is under every syntax: nothing is escaped and
  nothing is wrapped. A message with a lone surrogate is not converted, the constructor
  raises UnicodeEncodeError. On every object that has been constructed, whatever its
  state, the call of \<open>to_syntax\<close> itself returns the message and keeps it as the output.
\<close>

theorem fast_path_unchanged:
  assumes "falsy ents" and "nl \<notin> set msg"
  shows "(valid msg \<longrightarrow> convert msg ents ty = Inr msg) \<and>
         (\<not> valid msg \<longrightarrow> convert msg ents ty = Inl UnicodeEncodeError) \<and>
         (\<forall>self. message self = msg \<longrightarrow> entities self = ents \<longrightarrow>
            to_syntax ty self = Inr (msg, self\<lparr>output_text := msg\<rparr>))"
proof -
  have call: "to_syntax ty self = Inr (msg, self\<lparr>output_text := msg\<rparr>)"
    if "message self = msg" and "entities self = ents" for self
    using that assms by (simp add: to_syntax_def)
  have ok: "convert msg ents ty = Inr msg" if "valid msg"
  proof -
    have "init msg ents = Inr \<lparr>message = msg, entities = ents, output_text = [],
        message_b16 = enc msg, positions = []\<rparr>"
      using that by (simp add: init_def encode_valid)
    moreover have "to_syntax ty \<lparr>message = msg, entities = ents, output_text = [],
        message_b16 = enc msg, positions = []\<rparr> =
      Inr (msg, \<lparr>message = msg, entities = ents, output_text = [],
        message_b16 = enc msg, positions = []\<rparr>\<lparr>output_text := msg\<rparr>)"
      by (rule call) simp_all
    ultimately show ?thesis by (simp add: convert_def)
  qed
  have bad: "convert msg ents ty = Inl UnicodeEncodeError" if "\<not> valid msg"
    using that by (simp add: convert_def init_def encode_invalid)
  from call ok bad show ?thesis by blast
qed

theorem fast_path_unchanged_witness:
  "convert (ustr ''1<2 & *x*'') (Some []) ''html'' = Inr (ustr ''1<2 & *x*'')"
proof -
  have v: "valid (ustr ''1<2 & *x*'')" by (simp add: valid_def ustr_def)
  have f: "falsy (Some [])" by (simp add: falsy_def)
  have n: "nl \<notin> set (ustr ''1<2 & *x*'')" by (simp add: ustr_def nl_def)
  from fast_path_unchanged [OF f n] v show ?thesis by blast
qed

text \<open>
  The claim as it is written, for any text, fails for a text with a lone surrogate: it has
  no line break and no entities, and the conversion raises in the constructor.
\<close>

theorem lone_surrogate_not_converted:
  "nl \<notin> set [0xD800] \<and> falsy None \<and> convert [0xD800] None ''html'' = Inl UnicodeEncodeError"
  by (simp add: nl_def falsy_def convert_def init_def encode_char_def)

section \<open>Messages without entities\<close>

subsection \<open>Line breaks\<close>

lemma prepare_br_loop_nlkeys:
  "valid (p @ t) \<Longrightarrow>
     prepare_br_loop (p @ t) [length p..<length p + length t] ps = Inr (foldl mark_br ps (nlkeys p t))"
proof (induction t arbitrary: p ps)
  case Nil
  then show ?case by simp
next
  case (Cons c cs)
  define rest where "rest = [length (p @ [c])..<length (p @ [c]) + length cs]"
  have up: "[length p..<length p + length (c # cs)] = length p # rest"
    unfolding rest_def by (subst upt_rec) simp
  have vp: "valid p" using Cons.prems by (simp add: valid_simps)
  have step: "prepare_br_loop (p @ c # cs) (length p # rest) ps =
        prepare_br_loop (p @ c # cs) rest (if c = nl then mark_br ps (int (length (enc p))) else ps)"
    by (simp add: encode_valid [OF vp] mark_br_def)
  have IH: "prepare_br_loop (p @ c # cs) rest ps' = Inr (foldl mark_br ps' (nlkeys (p @ [c]) cs))" for ps'
    unfolding rest_def using Cons.IH [of "p @ [c]" ps'] Cons.prems by simp
  show ?case
    unfolding up step IH by simp
qed

lemma map_fst_mark_br:
  "map fst (mark_br ps k) = (if k \<in> set (map fst ps) then map fst ps else map fst ps @ [k])"
proof -
  have m: "map fst (AList.map_entry k f xs) = map fst xs" for f and xs :: positions
    by (induction xs) auto
  show ?thesis
    by (auto simp: mark_br_def set_br_def ensure_position_exists_def m map_of_eq_None_iff)
qed

lemma map_of_mark_br:
  "map_of (mark_br ps k) k' =
     (if k' = k then Some ((case map_of ps k of None \<Rightarrow> no_change | Some pc \<Rightarrow> pc)\<lparr>br := True\<rparr>)
      else map_of ps k')"
  by (auto simp: mark_br_def set_br_def ensure_position_exists_def map_of_map_entry no_change_def
      map_add_def split: option.splits)

lemma keys_mark_br: "set (map fst (mark_br ps k)) = insert k (set (map fst ps))"
  unfolding map_fst_mark_br by auto

lemma keys_foldl_mark_br:
  "set (map fst (foldl mark_br ps ks)) = set (map fst ps) \<union> set ks"
proof (induction ks arbitrary: ps)
  case Nil
  then show ?case by simp
next
  case (Cons a ks)
  have "set (map fst (foldl mark_br (mark_br ps a) ks)) = set (map fst (mark_br ps a)) \<union> set ks"
    by (rule Cons.IH)
  then show ?case unfolding keys_mark_br by auto
qed

lemma distinct_foldl_mark_br:
  "distinct (map fst ps) \<Longrightarrow> distinct (map fst (foldl mark_br ps ks))"
  by (induction ks arbitrary: ps) (auto simp: map_fst_mark_br)

lemma map_of_foldl_mark_br:
  "map_of (foldl mark_br ps ks) k =
     (if k \<in> set ks then Some ((case map_of ps k of None \<Rightarrow> no_change | Some pc \<Rightarrow> pc)\<lparr>br := True\<rparr>)
      else map_of ps k)"
proof (induction ks arbitrary: ps)
  case Nil
  then show ?case by simp
next
  case (Cons a ks)
  show ?case
    by (simp add: Cons.IH map_of_mark_br)
qed

lemma length_enc_snoc: "valid (p @ [c]) \<Longrightarrow> length (enc p) < length (enc (p @ [c]))"
  using enc_nonempty [of "[c]"] by (simp add: valid_simps enc_simps)

lemma length_enc_mono: "length (enc p) \<le> length (enc (p @ t))"
  by (simp add: enc_simps)

lemma nlkeys_bounds:
  "valid (p @ t) \<Longrightarrow> k \<in> set (nlkeys p t) \<Longrightarrow>
     int (length (enc p)) \<le> k \<and> k < int (length (enc (p @ t)))"
proof (induction t arbitrary: p)
  case Nil
  then show ?case by simp
next
  case (Cons c cs)
  have v: "valid (p @ [c])" "valid ((p @ [c]) @ cs)" using Cons.prems(1) by (simp_all add: valid_simps)
  have lt: "length (enc p) < length (enc (p @ [c]))" using v(1) by (rule length_enc_snoc)
  have le: "length (enc (p @ [c])) \<le> length (enc (p @ c # cs))"
    using length_enc_mono [of "p @ [c]" cs] by simp
  from Cons.prems(2) consider "k = int (length (enc p))" | "k \<in> set (nlkeys (p @ [c]) cs)"
    by (auto split: if_splits)
  then show ?case
  proof cases
    case 1
    with lt le show ?thesis by simp
  next
    case 2
    from Cons.IH [OF v(2) 2] lt show ?thesis by simp
  qed
qed

lemma nlkeys_sorted: "valid (p @ t) \<Longrightarrow> sorted_wrt (<) (nlkeys p t)"
proof (induction t arbitrary: p)
  case Nil
  then show ?case by simp
next
  case (Cons c cs)
  have v: "valid (p @ [c])" "valid ((p @ [c]) @ cs)" using Cons.prems(1) by (simp_all add: valid_simps)
  have lt: "length (enc p) < length (enc (p @ [c]))" using v(1) by (rule length_enc_snoc)
  have "\<forall>k\<in>set (nlkeys (p @ [c]) cs). int (length (enc p)) < k"
    using nlkeys_bounds [OF v(2)] lt by fastforce
  with Cons.IH [OF v(2)] show ?case by auto
qed

lemma concat_segs_acc: "concat (segs_acc cur t) = cur @ t"
  by (induction t arbitrary: cur) simp_all

lemma segs_acc_nonempty: "cur \<noteq> [] \<Longrightarrow> \<forall>s\<in>set (segs_acc cur t). s \<noteq> []"
  by (induction t arbitrary: cur) auto

lemma seg_keys_segs_acc:
  "seg_keys p (segs_acc cur t) =
     int (length (enc p)) # nlkeys (p @ cur) t @ [int (length (enc (p @ cur @ t)))]"
  by (induction t arbitrary: p cur) simp_all

lemma replace_append: "replace old new (a @ b) = replace old new a @ replace old new b"
  by (simp add: replace_def)

lemma replace_Nil: "replace old new [] = []"
  by (simp add: replace_def)

lemma escape_append: "escape (a @ b) = escape a @ escape b"
  by (simp add: escape_def replace_append)

lemma escape_Nil: "escape [] = []"
  by (simp add: escape_def replace_Nil)

lemma escape_concat: "escape s = concat (map (\<lambda>c. escape [c]) s)"
proof (induction s)
  case Nil
  then show ?case by (simp add: escape_Nil)
next
  case (Cons c cs)
  have "escape (c # cs) = escape [c] @ escape cs"
    using escape_append [of "[c]" cs] by simp
  with Cons show ?case by simp
qed

lemma replace_nl_none: "nl \<notin> set s \<Longrightarrow> replace nl [] s = s"
  by (induction s) (auto simp: replace_def)

lemma plain_no_nl: "nl \<notin> set s \<Longrightarrow> concat (map (plain_char par) s) = escape s"
proof -
  assume "nl \<notin> set s"
  then have "concat (map (plain_char par) s) = concat (map (\<lambda>c. escape [c]) s)"
    by (induction s) (simp_all add: plain_char_def)
  then show ?thesis by (simp only: escape_concat [of s])
qed

lemma code_in_opened_empty: "d ''MessageEntityCode'' \<noteq> None \<Longrightarrow> code_in_opened d [] = Inr False"
  by (auto simp: code_in_opened_def split: option.splits tag_entry.splits)

lemma render_position_plain:
  assumes "d ''MessageEntityCode'' \<noteq> None"
  shows "render_position d par nln (no_change\<lparr>br := b\<rparr>) txt ([], out) =
           Inr ([], out @ (if b then closing_of par @ opening_of par else []) @ escape (replace nl [] txt))"
  by (simp add: render_position_def no_change_def line_break_def code_in_opened_empty [of d, OF assms])

lemma segment_plain:
  assumes "cur \<noteq> []" and "nl \<notin> set (tl cur)"
  shows "(if hd cur = nl then closing_of par @ opening_of par else []) @ escape (replace nl [] cur) =
           concat (map (plain_char par) cur)"
proof -
  obtain c cs where cur: "cur = c # cs" using assms(1) by (cases cur) auto
  have cs: "nl \<notin> set cs" using assms(2) cur by simp
  have r: "replace nl [] (c # cs) = (if c = nl then [] else [c]) @ cs"
    using replace_append [of nl "[]" "[c]" cs] replace_nl_none [OF cs] by (simp add: replace_def)
  have e: "escape (replace nl [] (c # cs)) = (if c = nl then [] else escape [c]) @ escape cs"
    unfolding r using escape_append [of "[c]" cs] by simp
  show ?thesis
    unfolding cur using e plain_no_nl [OF cs, of par] by (simp add: plain_char_def)
qed

lemma render_segments_plain:
  assumes "d ''MessageEntityCode'' \<noteq> None"
    and "cur \<noteq> []" and "nl \<notin> set (tl cur)"
    and "map_of ps (int (length (enc p))) = Some (no_change\<lparr>br := (hd cur = nl)\<rparr>)"
    and "\<forall>k\<in>set (nlkeys (p @ cur) t). map_of ps k = Some (no_change\<lparr>br := True\<rparr>)"
    and "map_of ps (int (length (enc (p @ cur @ t)))) = Some (no_change\<lparr>br := False\<rparr>)"
  shows "render_segments d par nln ps p (segs_acc cur t) ([], out) =
           Inr ([], out @ concat (map (plain_char par) (cur @ t)))"
  using assms(2-)
proof (induction t arbitrary: p cur out)
  case Nil
  show ?case
    using Nil render_position_plain [of d, OF assms(1)] segment_plain [OF Nil(1,2), of par]
    by (simp add: escape_Nil replace_Nil)
next
  case (Cons c cs)
  show ?case
  proof (cases "c = nl")
    case True
    have here: "map_of ps (int (length (enc (p @ cur)))) = Some (no_change\<lparr>br := (hd [c] = nl)\<rparr>)"
      using Cons.prems(4) True by simp
    have later: "\<forall>k\<in>set (nlkeys ((p @ cur) @ [c]) cs). map_of ps k = Some (no_change\<lparr>br := True\<rparr>)"
      using Cons.prems(4) by simp
    have last: "map_of ps (int (length (enc ((p @ cur) @ [c] @ cs)))) = Some (no_change\<lparr>br := False\<rparr>)"
      using Cons.prems(5) by simp
    have IH: "render_segments d par nln ps (p @ cur) (segs_acc [c] cs) ([], out') =
              Inr ([], out' @ concat (map (plain_char par) ([c] @ cs)))" for out'
      by (rule Cons.IH [OF _ _ here later last]) simp_all
    show ?thesis
      using True Cons.prems(3) render_position_plain [of d, OF assms(1)] IH
        segment_plain [OF Cons.prems(1,2), of par]
      by simp
  next
    case False
    have tl: "nl \<notin> set (tl (cur @ [c]))" using Cons.prems(1,2) False by (cases cur) auto
    have here: "map_of ps (int (length (enc p))) = Some (no_change\<lparr>br := (hd (cur @ [c]) = nl)\<rparr>)"
      using Cons.prems(1,3) by simp
    have later: "\<forall>k\<in>set (nlkeys (p @ cur @ [c]) cs). map_of ps k = Some (no_change\<lparr>br := True\<rparr>)"
      using Cons.prems(4) False by simp
    have last: "map_of ps (int (length (enc (p @ (cur @ [c]) @ cs)))) = Some (no_change\<lparr>br := False\<rparr>)"
      using Cons.prems(5) by simp
    have "render_segments d par nln ps p (segs_acc (cur @ [c]) cs) ([], out) =
              Inr ([], out @ concat (map (plain_char par) ((cur @ [c]) @ cs)))"
      by (rule Cons.IH [OF _ tl here _ last]) (use later in simp_all)
    with False show ?thesis by simp
  qed
qed

lemma sort_unique:
  fixes xs ys :: "int list"
  assumes "distinct xs" and "sorted_wrt (<) ys" and "set xs = set ys"
  shows "sort xs = ys"
proof -
  have "sorted ys" "distinct ys" using assms(2) by (simp_all add: strict_sorted_iff)
  moreover have "sorted (sort xs)" "distinct (sort xs)" "set (sort xs) = set ys"
    using assms(1,3) by simp_all
  ultimately show ?thesis by (metis sorted_distinct_set_unique)
qed

lemma dict_has_code: "set_syntax_dict ty ''MessageEntityCode'' \<noteq> None"
  by (simp add: set_syntax_dict_def Let_def docuwiki_dict_def markdown_dict_def html_dict_def text_dict_def)

lemma render_plain:
  assumes v: "valid msg" and ne: "msg \<noteq> []" and d: "d ''MessageEntityCode'' \<noteq> None"
    and ps0: "ps0 = ensure_position_exists (int (length (enc msg))) (ensure_position_exists 0 [])"
    and ps2: "ps2 = foldl mark_br ps0 (nlkeys [] msg)"
  shows "render_loop d par nln (enc msg) ps2 (sort (map fst ps2)) ([], out) =
           Inr ([], out @ concat (map (plain_char par) msg))"
proof -
  obtain c cs where msg: "msg = c # cs" using ne by (cases msg) auto
  define L where "L = int (length (enc msg))"
  have Lpos: "0 < L" unfolding L_def using enc_nonempty [OF v ne] by simp
  have ps0': "ps0 = [(0, no_change), (L, no_change)]"
    using Lpos by (simp add: ps0 L_def ensure_position_exists_def no_change_def)
  have vc: "valid ([c] @ cs)" using v msg by simp
  have c_pos: "0 < int (length (enc [c]))"
    using enc_nonempty [of "[c]"] v msg by (simp add: valid_simps)
  have bnd: "0 < k \<and> k < L" if "k \<in> set (nlkeys [c] cs)" for k
  proof -
    have "int (length (enc [c])) \<le> k \<and> k < int (length (enc (c # cs)))"
      using nlkeys_bounds [OF vc that] by simp
    then show ?thesis unfolding L_def msg using c_pos by linarith
  qed
  have ks: "set (nlkeys [] msg) = (if c = nl then {0} else {}) \<union> set (nlkeys [c] cs)"
    by (simp add: msg enc_simps)
  define ys where "ys = seg_keys [] (segs_acc [c] cs)"
  have ys: "ys = 0 # nlkeys [c] cs @ [L]"
    by (simp add: ys_def seg_keys_segs_acc enc_simps L_def msg)
  have sorted: "sorted_wrt (<) ys"
    unfolding ys using nlkeys_sorted [OF vc] bnd Lpos by (auto simp: sorted_wrt_append)
  have dist: "distinct (map fst ps2)"
    unfolding ps2 by (rule distinct_foldl_mark_br) (use Lpos in \<open>simp add: ps0'\<close>)
  have keys: "set (map fst ps2) = set ys"
    unfolding ps2 keys_foldl_mark_br ks ys by (auto simp: ps0')
  have srt: "sort (map fst ps2) = ys" using dist sorted keys by (rule sort_unique)
  have lk: "map_of ps2 k =
      (if k \<in> set (nlkeys [] msg) then Some (no_change\<lparr>br := True\<rparr>)
       else if k = 0 \<or> k = L then Some no_change else None)" for k
    unfolding ps2 map_of_foldl_mark_br by (simp add: ps0')
  have zero: "0 \<in> set (nlkeys [] msg) \<longleftrightarrow> c = nl"
    unfolding ks using bnd by auto
  have here: "map_of ps2 (int (length (enc []))) = Some (no_change\<lparr>br := (hd [c] = nl)\<rparr>)"
    by (simp add: lk zero enc_simps no_change_def)
  have later: "\<forall>k\<in>set (nlkeys ([] @ [c]) cs). map_of ps2 k = Some (no_change\<lparr>br := True\<rparr>)"
    by (simp add: lk ks)
  have Lnot: "L \<notin> set (nlkeys [] msg)" unfolding ks using bnd Lpos by auto
  have last: "map_of ps2 (int (length (enc ([] @ [c] @ cs)))) = Some (no_change\<lparr>br := False\<rparr>)"
    using Lnot by (simp add: lk L_def [symmetric] msg [symmetric] no_change_def)
  have "render_loop d par nln (enc msg) ps2 ys ([], out) =
        render_segments d par nln ps2 [] (segs_acc [c] cs) ([], out)"
    unfolding ys_def
    by (rule render_loop_segments) (use v msg segs_acc_nonempty [of "[c]" cs] in \<open>simp_all add: concat_segs_acc\<close>)
  also have "\<dots> = Inr ([], out @ concat (map (plain_char par) ([c] @ cs)))"
    by (rule render_segments_plain [of d "[c]" ps2 "[]" cs, OF d _ _ here later last]) simp_all
  finally show ?thesis unfolding srt msg by simp
qed

lemma prepare_br_positions_valid:
  "valid msg \<Longrightarrow> prepare_br_positions msg ps = Inr (foldl mark_br ps (nlkeys [] msg))"
  using prepare_br_loop_nlkeys [of "[]" msg ps] by (simp add: prepare_br_positions_def)

lemma init_Inr:
  "init msg ents = Inr self \<Longrightarrow>
     valid msg \<and> self = \<lparr>message = msg, entities = ents, output_text = [], message_b16 = enc msg, positions = []\<rparr>"
  by (auto simp: init_def split: sum.splits dest: encode_Inr)

lemma to_syntax_plain:
  assumes "init msg ents = Inr self" and "falsy ents" and "nl \<in> set msg"
  shows "\<exists>self'. to_syntax ty self =
           Inr (opening_of (get_tag (set_syntax_dict ty) ''TagsParagraph'' (Tag [] [])) @
                concat (map (plain_char (get_tag (set_syntax_dict ty) ''TagsParagraph'' (Tag [] []))) msg) @
                closing_of (get_tag (set_syntax_dict ty) ''TagsParagraph'' (Tag [] [])), self')"
proof -
  define par where "par = get_tag (set_syntax_dict ty) ''TagsParagraph'' (Tag [] [])"
  define nln where "nln = get_tag (set_syntax_dict ty) ''TagsNewline'' (Tag [] [nl])"
  define ps0 where "ps0 = ensure_position_exists (int (length (enc msg))) (ensure_position_exists 0 [])"
  define ps2 where "ps2 = foldl mark_br ps0 (nlkeys [] msg)"
  from init_Inr [OF assms(1)] have v: "valid msg"
    and self: "self = \<lparr>message = msg, entities = ents, output_text = [], message_b16 = enc msg, positions = []\<rparr>"
    by simp_all
  have ne: "msg \<noteq> []" using assms(3) by auto
  have ents: "prepare_entity_positions_utf16le d (enc msg) ents ps0 = Inr ps0" for d
    using assms(2) by (auto simp: falsy_def prepare_entity_positions_utf16le_def)
  have brs: "prepare_br_positions msg ps0 = Inr ps2"
    unfolding ps2_def by (rule prepare_br_positions_valid [OF v])
  have loop: "render_loop (set_syntax_dict ty) par nln (enc msg) ps2 (sort (map fst ps2)) ([], []) =
        Inr ([], [] @ concat (map (plain_char par) msg))"
    by (rule render_plain [of msg "set_syntax_dict ty", OF v ne dict_has_code ps0_def ps2_def])
  show ?thesis
    using assms(3) ents brs loop
    by (simp add: to_syntax_def self Let_def par_def [symmetric] nln_def [symmetric] ps0_def [symmetric])
qed

lemma prepare_entity_resolve:
  "prepare_entity d b16 e ps =
     (case resolve_tag d b16 e of
        Inl x \<Rightarrow> Inl x
      | Inr None \<Rightarrow>
          Inr (ensure_position_exists ((offset e + length_e e) * 2) (ensure_position_exists (offset e * 2) ps))
      | Inr (Some t) \<Rightarrow>
          Inr (add_tag (offset e * 2) ((offset e + length_e e) * 2) t
                (ensure_position_exists ((offset e + length_e e) * 2) (ensure_position_exists (offset e * 2) ps))))"
  by (simp add: prepare_entity_def resolve_tag_def Let_def split: option.splits tag_entry.splits sum.splits)

lemma convert_plain:
  assumes "init msg ents = Inr self" and "falsy ents" and "nl \<in> set msg"
  shows "convert msg ents ty =
           Inr (opening_of (paragraph_tag ty) @ concat (map (plain_char (paragraph_tag ty)) msg) @
                closing_of (paragraph_tag ty))"
  using to_syntax_plain [OF assms, of ty] assms(1) by (auto simp: convert_def paragraph_tag_def)

lemma paragraph_tag_html: "lower ty = ''html'' \<Longrightarrow> paragraph_tag ty = Tag (ustr ''<p>'') (ustr ''</p>'')"
  by (simp add: paragraph_tag_def set_syntax_dict_def get_tag_def html_dict_def)

lemma paragraph_tag_other: "lower ty \<noteq> ''html'' \<Longrightarrow> paragraph_tag ty = Tag [] [nl]"
  by (simp add: paragraph_tag_def set_syntax_dict_def get_tag_def Let_def docuwiki_dict_def markdown_dict_def
      text_dict_def)

lemma escape_chars:
  "escape (ustr ''&'') = ustr ''&amp;''" "escape (ustr ''<'') = ustr ''&lt;''"
  "escape (ustr ''>'') = ustr ''&gt;''" "escape [dq] = ustr ''&quot;''" "escape [39] = ustr ''&#x27;''"
  by (simp_all add: escape_def replace_def ustr_def dq_def)

lemma init_valid: "valid msg \<Longrightarrow> \<exists>self. init msg ents = Inr self"
  by (simp add: init_def encode_valid)

section \<open>Entities\<close>

lemma nlkeys_none: "nl \<notin> set t \<Longrightarrow> nlkeys p t = []"
  by (induction t arbitrary: p) simp_all

text \<open>
  The conversion on the full path, for a message that can be encoded: the entities are
  placed, the line breaks are marked, the loop runs from an empty output, and the
  paragraph tag wraps its result.
\<close>

lemma convert_full:
  assumes "valid msg" and "\<not> (falsy ents \<and> nl \<notin> set msg)"
  shows "convert msg ents ty =
     (case prepare_entity_positions_utf16le (set_syntax_dict ty) (enc msg) ents
             (ensure_position_exists (int (length (enc msg))) (ensure_position_exists 0 [])) of
        Inl x \<Rightarrow> Inl x
      | Inr ps1 \<Rightarrow>
          (case render_loop (set_syntax_dict ty) (paragraph_tag ty) (newline_tag ty) (enc msg)
                  (foldl mark_br ps1 (nlkeys [] msg))
                  (sort (map fst (foldl mark_br ps1 (nlkeys [] msg)))) ([], []) of
             Inl x \<Rightarrow> Inl x
           | Inr (opened_tags, out) \<Rightarrow>
               Inr (opening_of (paragraph_tag ty) @ out @ closing_of (paragraph_tag ty))))"
  using assms
  by (auto simp: convert_def init_def encode_valid to_syntax_def Let_def prepare_br_positions_valid
      paragraph_tag_def newline_tag_def split: sum.splits)

section \<open>State kept between calls\<close>

text \<open>
  Claim C6. A second call of \<open>to_syntax\<close> on the same object does not return the string
  of the first call when the full algorithm runs: the object keeps \<open>output\<close> and
  \<open>_positions\<close>, the loop appends to the output of the first call and the paragraph tag
  wraps the whole again. For \<open>A\nB\<close> under HTML the first call returns
  \<open><p>A</p><p>B</p>\<close> and the second \<open><p><p>A</p><p>B</p>A</p><p>B</p>\<close>.
\<close>

theorem second_call_appends:
  "(case init (ustr ''A'' @ [nl] @ ustr ''B'') None of
      Inl x \<Rightarrow> Inl x
    | Inr self \<Rightarrow>
        (case to_syntax ''html'' self of
           Inl x \<Rightarrow> Inl x
         | Inr (first, self') \<Rightarrow>
             (case to_syntax ''html'' self' of
                Inl x \<Rightarrow> Inl x
              | Inr (second, self'') \<Rightarrow> Inr (first, second)))) =
   Inr (ustr ''<p>A</p><p>B</p>'', ustr ''<p><p>A</p><p>B</p>A</p><p>B</p>'')"
  by (simp add: eval_defs lower_def lower_char_def html_dict_def)

theorem second_call_appends_witness:
  "\<exists>self first self' second self''.
     init (ustr ''A'' @ [nl] @ ustr ''B'') None = Inr self \<and>
     to_syntax ''html'' self = Inr (first, self') \<and>
     to_syntax ''html'' self' = Inr (second, self'') \<and> first \<noteq> second"
proof -
  have ne: "ustr ''<p>A</p><p>B</p>'' \<noteq> ustr ''<p><p>A</p><p>B</p>A</p><p>B</p>''"
    by (simp add: ustr_def)
  from second_call_appends ne show ?thesis
    by (auto split: sum.splits)
qed

section \<open>Zero-length entities\<close>

lemma close_tags_empty_stack: "ts \<noteq> [] \<Longrightarrow> close_tags ts ([], out) = Inl IndexError"
  by (cases ts) simp_all

lemma render_position_no_tags:
  assumes "to_close pc = []" and "to_open pc = []"
  shows "(\<exists>err. render_position d par nln pc seg ([], out) = Inl err) \<or>
         (\<exists>out'. render_position d par nln pc seg ([], out) = Inr ([], out'))"
  using assms by (cases "line_break d par nln []") (simp_all add: render_position_def)

lemma render_loop_pop_fails:
  assumes "k \<in> set ks"
    and "\<forall>k'\<in>set ks. \<exists>pc. map_of ps k' = Some pc \<and>
           (if k' = k then to_close pc \<noteq> [] else to_close pc = [] \<and> to_open pc = [])"
  shows "\<exists>err. render_loop d par nln b16 ps ks ([], out) = Inl err"
  using assms
proof (induction ks arbitrary: out)
  case Nil
  then show ?case by simp
next
  case (Cons k' rest)
  obtain pc where pc: "map_of ps k' = Some pc"
    and shape: "if k' = k then to_close pc \<noteq> [] else to_close pc = [] \<and> to_open pc = []"
    using Cons.prems(2) by auto
  show ?case
  proof (cases "k' = k")
    case True
    then have "render_position d par nln pc seg ([], out) = Inl IndexError" for seg
      using shape by (simp add: render_position_def close_tags_empty_stack)
    then show ?thesis
      using pc by (auto split: sum.splits list.splits)
  next
    case False
    then have kin: "k \<in> set rest" using Cons.prems(1) by auto
    have rest: "\<exists>err. render_loop d par nln b16 ps rest ([], out') = Inl err" for out'
      using Cons.IH [OF kin] Cons.prems(2) by simp
    have step: "(\<exists>err. render_position d par nln pc seg ([], out) = Inl err) \<or>
         (\<exists>out'. render_position d par nln pc seg ([], out) = Inr ([], out'))" for seg
      using shape False by (intro render_position_no_tags) simp_all
    show ?thesis
    proof (cases "if k' \<noteq> int (length b16)
            then (case rest of [] \<Rightarrow> Inl IndexError | n # _ \<Rightarrow> Inr (Some n))
            else Inr None")
      case (Inl x)
      then show ?thesis by simp
    next
      case (Inr next_index)
      show ?thesis
      proof (cases "decode (slice b16 k' next_index)")
        case (Inl x)
        with Inr show ?thesis by simp
      next
        case seg: (Inr seg)
        from step [of seg] show ?thesis
        proof
          assume "\<exists>err. render_position d par nln pc seg ([], out) = Inl err"
          then show ?thesis using Inr seg pc by auto
        next
          assume "\<exists>out'. render_position d par nln pc seg ([], out) = Inr ([], out')"
          then obtain out' where "render_position d par nln pc seg ([], out) = Inr ([], out')" ..
          then show ?thesis using Inr seg pc rest [of out'] by simp
        qed
      qed
    qed
  qed
qed

lemma zero_length_positions:
  assumes "ps1 = add_tag k k t (ensure_position_exists k (ensure_position_exists k
                  (ensure_position_exists l (ensure_position_exists 0 []))))"
  shows "k \<in> set (map fst ps1)"
    and "k' \<in> set (map fst ps1) \<Longrightarrow> \<exists>pc. map_of ps1 k' = Some pc \<and>
           (if k' = k then to_close pc \<noteq> [] else to_close pc = [] \<and> to_open pc = [])"
  unfolding assms
  by (auto simp: ensure_position_exists_def add_tag_def split: if_splits)

lemma zero_length_loop_fails:
  assumes ps1: "ps1 = add_tag k k t (ensure_position_exists k (ensure_position_exists k
                  (ensure_position_exists l (ensure_position_exists 0 []))))"
    and ps2: "ps2 = foldl mark_br ps1 ks"
  shows "\<exists>err. render_loop d par nln b16 ps2 (sort (map fst ps2)) ([], out) = Inl err"
proof (rule render_loop_pop_fails [where k = k])
  show "k \<in> set (sort (map fst ps2))"
    using zero_length_positions(1) [OF ps1] by (simp add: ps2 keys_foldl_mark_br del: set_map)
next
  show "\<forall>k'\<in>set (sort (map fst ps2)). \<exists>pc. map_of ps2 k' = Some pc \<and>
           (if k' = k then to_close pc \<noteq> [] else to_close pc = [] \<and> to_open pc = [])"
  proof
    fix k' assume "k' \<in> set (sort (map fst ps2))"
    then have mem: "k' \<in> set (map fst ps1) \<or> k' \<in> set ks"
      by (simp add: ps2 keys_foldl_mark_br del: set_map)
    show "\<exists>pc. map_of ps2 k' = Some pc \<and>
           (if k' = k then to_close pc \<noteq> [] else to_close pc = [] \<and> to_open pc = [])"
    proof (cases "map_of ps1 k'")
      case None
      then have "k' \<notin> set (map fst ps1)" by (simp add: map_of_eq_None_iff)
      with mem zero_length_positions(1) [OF ps1] have "k' \<in> set ks" "k' \<noteq> k" by auto
      with None show ?thesis by (simp add: ps2 map_of_foldl_mark_br no_change_def)
    next
      case (Some pc)
      then have "k' \<in> set (map fst ps1)" by (metis map_of_eq_None_iff option.distinct(1) set_map)
      from zero_length_positions(2) [OF ps1 this] Some
      have "if k' = k then to_close pc \<noteq> [] else to_close pc = [] \<and> to_open pc = []" by simp
      with Some show ?thesis by (simp add: ps2 map_of_foldl_mark_br)
    qed
  qed
qed

text \<open>
  Claim C10. A message with one entity of length 0 whose kind resolves to a tag is not
  converted: \<open>to_syntax\<close> raises. The tag is in the close list and in the open list of
  the same offset, no other tag is ever opened, and the close list is processed first,
  on an empty stack (unless an earlier offset has already raised).
\<close>

theorem zero_length_entity_raises:
  assumes "init msg (Some [e]) = Inr self" and "length_e e = 0"
    and "resolve_tag (set_syntax_dict ty) (message_b16 self) e = Inr (Some t)"
  shows "\<exists>err. to_syntax ty self = Inl err \<and> convert msg (Some [e]) ty = Inl err"
proof -
  from init_Inr [OF assms(1)] have v: "valid msg" and b: "message_b16 self = enc msg"
    by simp_all
  define ps1 where "ps1 = add_tag (offset e * 2) (offset e * 2) t
     (ensure_position_exists (offset e * 2) (ensure_position_exists (offset e * 2)
        (ensure_position_exists (int (length (enc msg))) (ensure_position_exists 0 []))))"
  define ps2 where "ps2 = foldl mark_br ps1 (nlkeys [] msg)"
  have prep: "prepare_entity_positions_utf16le (set_syntax_dict ty) (enc msg) (Some [e])
      (ensure_position_exists (int (length (enc msg))) (ensure_position_exists 0 [])) = Inr ps1"
    using assms(2,3)
    by (simp add: prepare_entity_positions_utf16le_def prepare_entity_resolve b ps1_def)
  obtain err where err: "render_loop (set_syntax_dict ty) (paragraph_tag ty) (newline_tag ty)
      (enc msg) ps2 (sort (map fst ps2)) ([], []) = Inl err"
    using zero_length_loop_fails [OF ps1_def ps2_def] by blast
  have c: "convert msg (Some [e]) ty = Inl err"
    using prep err by (simp add: convert_full [OF v] falsy_def ps2_def)
  then have "to_syntax ty self = Inl err"
    using assms(1) by (auto simp: convert_def split: sum.splits)
  with c show ?thesis by blast
qed

theorem zero_length_entity_raises_witness:
  "\<exists>err. convert (ustr ''ab'') (Some [entity ''MessageEntityBold'' 1 0]) ''html'' = Inl err"
proof -
  have "valid (ustr ''ab'')" by (simp add: valid_def ustr_def)
  then obtain self where i: "init (ustr ''ab'') (Some [entity ''MessageEntityBold'' 1 0]) = Inr self"
    using init_valid by blast
  have z: "length_e (entity ''MessageEntityBold'' 1 0) = 0" by (simp add: entity_def)
  have r: "resolve_tag (set_syntax_dict ''html'') (message_b16 self) (entity ''MessageEntityBold'' 1 0) =
      Inr (Some (Tag (ustr ''<b>'') (ustr ''</b>'')))"
    by (simp add: resolve_tag_def set_syntax_dict_def lower_def lower_char_def html_dict_def entity_def)
  from zero_length_entity_raises [OF i z r] show ?thesis by blast
qed

lemma zero_length_bold_index_error:
  "convert (ustr ''ab'') (Some [entity ''MessageEntityBold'' 1 0]) ''html'' = Inl IndexError"
  by (simp add: eval_defs lower_def lower_char_def html_dict_def)

section \<open>One entity in a message without line breaks\<close>

lemma length_enc_units: "valid t \<Longrightarrow> length (enc t) = 2 * units t"
  by (induction t) (auto simp: valid_simps enc_simps units_def length_char_bytes)

lemma resolve_tag_covered:
  assumes "valid (a @ b @ c)"
    and "offset e = int (units a)" and "length_e e = int (units b)"
  shows "resolve_tag d (enc (a @ b @ c)) e = apply_entry (d (ename e)) e b"
proof -
  have v: "valid a" "valid b" using assms(1) by (simp_all add: valid_simps)
  have st: "offset e * 2 = int (length (enc a))"
    using assms(2) length_enc_units [OF v(1)] by simp
  have en: "(offset e + length_e e) * 2 = int (length (enc a) + length (enc b))"
    using assms(2,3) length_enc_units [OF v(1)] length_enc_units [OF v(2)] by simp
  have "decode (slice (enc (a @ b @ c)) (offset e * 2) (Some ((offset e + length_e e) * 2))) = Inr b"
    unfolding st en using slice_mid [of "enc a" "enc b" "enc c"] decode_enc [OF v(2)]
    by (simp add: enc_simps)
  then show ?thesis
    by (simp add: resolve_tag_def apply_entry_def split: option.splits tag_entry.splits)
qed

lemma one_entity_loop:
  assumes v: "valid (a @ b @ c)" and nn: "nl \<notin> set (a @ b @ c)" and ne: "b \<noteq> []"
    and b16: "b16 = enc (a @ b @ c)"
    and st: "offset e * 2 = int (length (enc a))"
    and en: "(offset e + length_e e) * 2 = int (length (enc a) + length (enc b))"
    and r: "resolve_tag d b16 e = Inr (Some t)"
    and ps0: "ps0 = ensure_position_exists (int (length b16)) (ensure_position_exists 0 [])"
  shows "\<exists>ps. prepare_entities d b16 [e] ps0 = Inr ps \<and>
          render_loop d par nln b16 ps (sort (map fst ps)) ([], out) =
           Inr ([], out @ escape a @ opening_of t @ escape b @ closing_of t @ escape c)"
proof -
  have va: "valid a" "valid b" "valid c" using v by (simp_all add: valid_simps)
  define A where "A = length (enc a)"
  define B where "B = length (enc b)"
  define C where "C = length (enc c)"
  have pos: "0 < B" "a \<noteq> [] \<Longrightarrow> 0 < A" "c \<noteq> [] \<Longrightarrow> 0 < C"
    using enc_nonempty va ne by (simp_all add: A_def B_def C_def)
  have nls: "replace nl [] a = a" "replace nl [] b = b" "replace nl [] c = c"
    using nn by (simp_all add: replace_nl_none)
  have le: "length_e e * 2 = int B" using st en unfolding B_def by (simp add: algebra_simps)
  consider "a \<noteq> []" "c \<noteq> []" | "a = []" "c \<noteq> []" | "a \<noteq> []" "c = []" | "a = []" "c = []"
    by blast
  then show ?thesis
  proof cases
    case 1
    have len: "int (length b16) = int A + int B + int C" using 1 by (simp add: b16 enc_simps A_def B_def C_def)
    have st': "offset e * 2 = int A" using st 1 by (simp add: enc_simps A_def)
    have en': "(offset e + length_e e) * 2 = int A + int B" using en 1 by (simp add: enc_simps A_def B_def)
    have "\<exists>ps. prepare_entities d b16 [e] ps0 = Inr ps \<and> sort (map fst ps) = seg_keys [] [a, b, c] \<and>
            render_segments d par nln ps [] [a, b, c] ([], out) =
              Inr ([], out @ escape a @ opening_of t @ escape b @ closing_of t @ escape c)"
      using pos 1
      by (simp add: prepare_entity_resolve r st' en' le ps0 len ensure_position_exists_def add_tag_def
          enc_simps render_position_def nls escape_Nil replace_Nil
          A_def [symmetric] B_def [symmetric] C_def [symmetric])
    then obtain ps where ps: "prepare_entities d b16 [e] ps0 = Inr ps"
        "sort (map fst ps) = seg_keys [] [a, b, c]"
        "render_segments d par nln ps [] [a, b, c] ([], out) =
              Inr ([], out @ escape a @ opening_of t @ escape b @ closing_of t @ escape c)"
      by blast
    have "render_loop d par nln b16 ps (seg_keys [] [a, b, c]) ([], out) =
          render_segments d par nln ps [] [a, b, c] ([], out)"
      by (rule render_loop_segments) (use v ne 1 in \<open>simp_all add: b16\<close>)
    with ps show ?thesis by simp
  next
    case 2
    have len: "int (length b16) = int B + int C" using 2 by (simp add: b16 enc_simps A_def B_def C_def)
    have st': "offset e * 2 = 0" using st 2 by (simp add: enc_simps A_def)
    have en': "(offset e + length_e e) * 2 = int B" using en 2 by (simp add: enc_simps A_def B_def)
    have "\<exists>ps. prepare_entities d b16 [e] ps0 = Inr ps \<and> sort (map fst ps) = seg_keys [] [b, c] \<and>
            render_segments d par nln ps [] [b, c] ([], out) =
              Inr ([], out @ escape a @ opening_of t @ escape b @ closing_of t @ escape c)"
      using pos 2
      by (simp add: prepare_entity_resolve r st' en' le ps0 len ensure_position_exists_def add_tag_def
          enc_simps render_position_def nls escape_Nil replace_Nil
          A_def [symmetric] B_def [symmetric] C_def [symmetric])
    then obtain ps where ps: "prepare_entities d b16 [e] ps0 = Inr ps"
        "sort (map fst ps) = seg_keys [] [b, c]"
        "render_segments d par nln ps [] [b, c] ([], out) =
              Inr ([], out @ escape a @ opening_of t @ escape b @ closing_of t @ escape c)"
      by blast
    have "render_loop d par nln b16 ps (seg_keys [] [b, c]) ([], out) =
          render_segments d par nln ps [] [b, c] ([], out)"
      by (rule render_loop_segments) (use v ne 2 in \<open>simp_all add: b16\<close>)
    with ps show ?thesis by simp
  next
    case 3
    have len: "int (length b16) = int A + int B" using 3 by (simp add: b16 enc_simps A_def B_def C_def)
    have st': "offset e * 2 = int A" using st 3 by (simp add: enc_simps A_def)
    have en': "(offset e + length_e e) * 2 = int A + int B" using en 3 by (simp add: enc_simps A_def B_def)
    have "\<exists>ps. prepare_entities d b16 [e] ps0 = Inr ps \<and> sort (map fst ps) = seg_keys [] [a, b] \<and>
            render_segments d par nln ps [] [a, b] ([], out) =
              Inr ([], out @ escape a @ opening_of t @ escape b @ closing_of t @ escape c)"
      using pos 3
      by (simp add: prepare_entity_resolve r st' en' le ps0 len ensure_position_exists_def add_tag_def
          enc_simps render_position_def nls escape_Nil replace_Nil
          A_def [symmetric] B_def [symmetric] C_def [symmetric])
    then obtain ps where ps: "prepare_entities d b16 [e] ps0 = Inr ps"
        "sort (map fst ps) = seg_keys [] [a, b]"
        "render_segments d par nln ps [] [a, b] ([], out) =
              Inr ([], out @ escape a @ opening_of t @ escape b @ closing_of t @ escape c)"
      by blast
    have "render_loop d par nln b16 ps (seg_keys [] [a, b]) ([], out) =
          render_segments d par nln ps [] [a, b] ([], out)"
      by (rule render_loop_segments) (use v ne 3 in \<open>simp_all add: b16\<close>)
    with ps show ?thesis by simp
  next
    case 4
    have len: "int (length b16) = int B" using 4 by (simp add: b16 enc_simps A_def B_def C_def)
    have st': "offset e * 2 = 0" using st 4 by (simp add: enc_simps A_def)
    have en': "(offset e + length_e e) * 2 = int B" using en 4 by (simp add: enc_simps A_def B_def)
    have "\<exists>ps. prepare_entities d b16 [e] ps0 = Inr ps \<and> sort (map fst ps) = seg_keys [] [b] \<and>
            render_segments d par nln ps [] [b] ([], out) =
              Inr ([], out @ escape a @ opening_of t @ escape b @ closing_of t @ escape c)"
      using pos 4
      by (simp add: prepare_entity_resolve r st' en' le ps0 len ensure_position_exists_def add_tag_def
          enc_simps render_position_def nls escape_Nil replace_Nil
          A_def [symmetric] B_def [symmetric] C_def [symmetric])
    then obtain ps where ps: "prepare_entities d b16 [e] ps0 = Inr ps"
        "sort (map fst ps) = seg_keys [] [b]"
        "render_segments d par nln ps [] [b] ([], out) =
              Inr ([], out @ escape a @ opening_of t @ escape b @ closing_of t @ escape c)"
      by blast
    have "render_loop d par nln b16 ps (seg_keys [] [b]) ([], out) =
          render_segments d par nln ps [] [b] ([], out)"
      by (rule render_loop_segments) (use v ne 4 in \<open>simp_all add: b16\<close>)
    with ps show ?thesis by simp
  qed
qed

lemma one_entity_loop_no_tag:
  assumes v: "valid (a @ b @ c)" and nn: "nl \<notin> set (a @ b @ c)" and ne: "b \<noteq> []"
    and b16: "b16 = enc (a @ b @ c)"
    and st: "offset e * 2 = int (length (enc a))"
    and en: "(offset e + length_e e) * 2 = int (length (enc a) + length (enc b))"
    and r: "resolve_tag d b16 e = Inr None"
    and ps0: "ps0 = ensure_position_exists (int (length b16)) (ensure_position_exists 0 [])"
  shows "\<exists>ps. prepare_entities d b16 [e] ps0 = Inr ps \<and>
          render_loop d par nln b16 ps (sort (map fst ps)) ([], out) =
           Inr ([], out @ escape a @ escape b @ escape c)"
proof -
  have va: "valid a" "valid b" "valid c" using v by (simp_all add: valid_simps)
  define A where "A = length (enc a)"
  define B where "B = length (enc b)"
  define C where "C = length (enc c)"
  have pos: "0 < B" "a \<noteq> [] \<Longrightarrow> 0 < A" "c \<noteq> [] \<Longrightarrow> 0 < C"
    using enc_nonempty va ne by (simp_all add: A_def B_def C_def)
  have nls: "replace nl [] a = a" "replace nl [] b = b" "replace nl [] c = c"
    using nn by (simp_all add: replace_nl_none)
  have le: "length_e e * 2 = int B" using st en unfolding B_def by (simp add: algebra_simps)
  consider "a \<noteq> []" "c \<noteq> []" | "a = []" "c \<noteq> []" | "a \<noteq> []" "c = []" | "a = []" "c = []"
    by blast
  then show ?thesis
  proof cases
    case 1
    have len: "int (length b16) = int A + int B + int C" using 1 by (simp add: b16 enc_simps A_def B_def C_def)
    have st': "offset e * 2 = int A" using st 1 by (simp add: enc_simps A_def)
    have "\<exists>ps. prepare_entities d b16 [e] ps0 = Inr ps \<and> sort (map fst ps) = seg_keys [] [a, b, c] \<and>
            render_segments d par nln ps [] [a, b, c] ([], out) = Inr ([], out @ escape a @ escape b @ escape c)"
      using pos 1
      by (simp add: prepare_entity_resolve r st' le ps0 len ensure_position_exists_def
          enc_simps render_position_def nls escape_Nil replace_Nil
          A_def [symmetric] B_def [symmetric] C_def [symmetric])
    then obtain ps where ps: "prepare_entities d b16 [e] ps0 = Inr ps"
        "sort (map fst ps) = seg_keys [] [a, b, c]"
        "render_segments d par nln ps [] [a, b, c] ([], out) = Inr ([], out @ escape a @ escape b @ escape c)"
      by blast
    have "render_loop d par nln b16 ps (seg_keys [] [a, b, c]) ([], out) =
          render_segments d par nln ps [] [a, b, c] ([], out)"
      by (rule render_loop_segments) (use v ne 1 in \<open>simp_all add: b16\<close>)
    with ps show ?thesis by simp
  next
    case 2
    have len: "int (length b16) = int B + int C" using 2 by (simp add: b16 enc_simps A_def B_def C_def)
    have st': "offset e * 2 = 0" using st 2 by (simp add: enc_simps A_def)
    have "\<exists>ps. prepare_entities d b16 [e] ps0 = Inr ps \<and> sort (map fst ps) = seg_keys [] [b, c] \<and>
            render_segments d par nln ps [] [b, c] ([], out) = Inr ([], out @ escape a @ escape b @ escape c)"
      using pos 2
      by (simp add: prepare_entity_resolve r st' le ps0 len ensure_position_exists_def
          enc_simps render_position_def nls escape_Nil replace_Nil
          A_def [symmetric] B_def [symmetric] C_def [symmetric])
    then obtain ps where ps: "prepare_entities d b16 [e] ps0 = Inr ps"
        "sort (map fst ps) = seg_keys [] [b, c]"
        "render_segments d par nln ps [] [b, c] ([], out) = Inr ([], out @ escape a @ escape b @ escape c)"
      by blast
    have "render_loop d par nln b16 ps (seg_keys [] [b, c]) ([], out) =
          render_segments d par nln ps [] [b, c] ([], out)"
      by (rule render_loop_segments) (use v ne 2 in \<open>simp_all add: b16\<close>)
    with ps show ?thesis by simp
  next
    case 3
    have len: "int (length b16) = int A + int B" using 3 by (simp add: b16 enc_simps A_def B_def C_def)
    have st': "offset e * 2 = int A" using st 3 by (simp add: enc_simps A_def)
    have "\<exists>ps. prepare_entities d b16 [e] ps0 = Inr ps \<and> sort (map fst ps) = seg_keys [] [a, b] \<and>
            render_segments d par nln ps [] [a, b] ([], out) = Inr ([], out @ escape a @ escape b @ escape c)"
      using pos 3
      by (simp add: prepare_entity_resolve r st' le ps0 len ensure_position_exists_def
          enc_simps render_position_def nls escape_Nil replace_Nil
          A_def [symmetric] B_def [symmetric] C_def [symmetric])
    then obtain ps where ps: "prepare_entities d b16 [e] ps0 = Inr ps"
        "sort (map fst ps) = seg_keys [] [a, b]"
        "render_segments d par nln ps [] [a, b] ([], out) = Inr ([], out @ escape a @ escape b @ escape c)"
      by blast
    have "render_loop d par nln b16 ps (seg_keys [] [a, b]) ([], out) =
          render_segments d par nln ps [] [a, b] ([], out)"
      by (rule render_loop_segments) (use v ne 3 in \<open>simp_all add: b16\<close>)
    with ps show ?thesis by simp
  next
    case 4
    have len: "int (length b16) = int B" using 4 by (simp add: b16 enc_simps A_def B_def C_def)
    have st': "offset e * 2 = 0" using st 4 by (simp add: enc_simps A_def)
    have "\<exists>ps. prepare_entities d b16 [e] ps0 = Inr ps \<and> sort (map fst ps) = seg_keys [] [b] \<and>
            render_segments d par nln ps [] [b] ([], out) = Inr ([], out @ escape a @ escape b @ escape c)"
      using pos 4
      by (simp add: prepare_entity_resolve r st' le ps0 len ensure_position_exists_def
          enc_simps render_position_def nls escape_Nil replace_Nil
          A_def [symmetric] B_def [symmetric] C_def [symmetric])
    then obtain ps where ps: "prepare_entities d b16 [e] ps0 = Inr ps"
        "sort (map fst ps) = seg_keys [] [b]"
        "render_segments d par nln ps [] [b] ([], out) = Inr ([], out @ escape a @ escape b @ escape c)"
      by blast
    have "render_loop d par nln b16 ps (seg_keys [] [b]) ([], out) =
          render_segments d par nln ps [] [b] ([], out)"
      by (rule render_loop_segments) (use v ne 4 in \<open>simp_all add: b16\<close>)
    with ps show ?thesis by simp
  qed
qed

text \<open>One entity over a message with no line break, through the whole conversion.\<close>

lemma convert_one_entity:
  assumes i: "init (a @ b @ c) (Some [e]) = Inr self" and nn: "nl \<notin> set (a @ b @ c)" and ne: "b \<noteq> []"
    and off: "offset e = int (units a)" and len: "length_e e = int (units b)"
    and entry: "apply_entry (set_syntax_dict ty (ename e)) e b = Inr topt"
  shows "convert (a @ b @ c) (Some [e]) ty =
           Inr (opening_of (paragraph_tag ty) @ escape a @
                (case topt of None \<Rightarrow> [] | Some t \<Rightarrow> opening_of t) @ escape b @
                (case topt of None \<Rightarrow> [] | Some t \<Rightarrow> closing_of t) @ escape c @
                closing_of (paragraph_tag ty))"
proof -
  from init_Inr [OF i] have v: "valid (a @ b @ c)" by simp
  have va: "valid a" "valid b" using v by (simp_all add: valid_simps)
  have st: "offset e * 2 = int (length (enc a))"
    using off length_enc_units [OF va(1)] by simp
  have en: "(offset e + length_e e) * 2 = int (length (enc a) + length (enc b))"
    using off len length_enc_units [OF va(1)] length_enc_units [OF va(2)] by simp
  have r: "resolve_tag (set_syntax_dict ty) (enc (a @ b @ c)) e = Inr topt"
    using resolve_tag_covered [OF v off len] entry by simp
  define ps0 where "ps0 = ensure_position_exists (int (length (enc (a @ b @ c)))) (ensure_position_exists 0 [])"
  have nf: "\<not> (falsy (Some [e]) \<and> nl \<notin> set (a @ b @ c))" by (simp add: falsy_def)
  have nk: "nlkeys [] (a @ b @ c) = []" using nn by (rule nlkeys_none)
  show ?thesis
  proof (cases topt)
    case None
    obtain ps where "prepare_entities (set_syntax_dict ty) (enc (a @ b @ c)) [e] ps0 = Inr ps"
      "render_loop (set_syntax_dict ty) (paragraph_tag ty) (newline_tag ty) (enc (a @ b @ c)) ps
         (sort (map fst ps)) ([], []) = Inr ([], [] @ escape a @ escape b @ escape c)"
      using one_entity_loop_no_tag [OF v nn ne refl st en r [unfolded None] ps0_def] by blast
    then show ?thesis
      unfolding convert_full [OF v nf] nk
      by (simp add: prepare_entity_positions_utf16le_def ps0_def None)
  next
    case (Some t)
    obtain ps where "prepare_entities (set_syntax_dict ty) (enc (a @ b @ c)) [e] ps0 = Inr ps"
      "render_loop (set_syntax_dict ty) (paragraph_tag ty) (newline_tag ty) (enc (a @ b @ c)) ps
         (sort (map fst ps)) ([], []) =
       Inr ([], [] @ escape a @ opening_of t @ escape b @ closing_of t @ escape c)"
      using one_entity_loop [OF v nn ne refl st en r [unfolded Some] ps0_def] by blast
    then show ?thesis
      unfolding convert_full [OF v nf] nk
      by (simp add: prepare_entity_positions_utf16le_def ps0_def Some)
  qed
qed

lemma covered_text:
  assumes "valid (a @ b @ c)"
    and "offset e = int (units a)" and "length_e e = int (units b)"
  shows "decode (slice (enc (a @ b @ c)) (offset e * 2) (Some ((offset e + length_e e) * 2))) = Inr b"
proof -
  have v: "valid a" "valid b" using assms(1) by (simp_all add: valid_simps)
  have st: "offset e * 2 = int (length (enc a))"
    using assms(2) length_enc_units [OF v(1)] by simp
  have en: "(offset e + length_e e) * 2 = int (length (enc a) + length (enc b))"
    using assms(2,3) length_enc_units [OF v(1)] length_enc_units [OF v(2)] by simp
  show ?thesis
    unfolding st en using slice_mid [of "enc a" "enc b" "enc c"] decode_enc [OF v(2)]
    by (simp add: enc_simps)
qed

section \<open>Offsets in 16-bit units\<close>

text \<open>
  Claim C5. Let the message be \<open>a @ b @ c\<close> and let the entity start after the 16-bit
  units of \<open>a\<close> and have the length of \<open>b\<close> in 16-bit units, where a character from
  U+10000 on counts two units. Then the text handed to a tag function is exactly \<open>b\<close>,
  and the tag opens before \<open>b\<close> and closes after it. This holds for every syntax and every
  kind that has a tag, wherever characters of two units stand in \<open>a\<close>, \<open>b\<close> or \<open>c\<close>.
\<close>

theorem entity_span_in_units:
  assumes "init (a @ b @ c) (Some [e]) = Inr self"
    and "nl \<notin> set (a @ b @ c)" and "b \<noteq> []"
    and "offset e = int (units a)" and "length_e e = int (units b)"
    and "apply_entry (set_syntax_dict ty (ename e)) e b = Inr (Some t)"
  shows "decode (slice (message_b16 self) (offset e * 2) (Some ((offset e + length_e e) * 2))) = Inr b \<and>
         convert (a @ b @ c) (Some [e]) ty =
           Inr (opening_of (paragraph_tag ty) @ escape a @ opening_of t @ escape b @ closing_of t @
                escape c @ closing_of (paragraph_tag ty))"
proof -
  from init_Inr [OF assms(1)] have v: "valid (a @ b @ c)" and b: "message_b16 self = enc (a @ b @ c)"
    by simp_all
  show ?thesis
    using covered_text [OF v assms(4,5)] convert_one_entity [OF assms] by (simp add: b)
qed

theorem entity_span_in_units_witness:
  "convert (ustr ''x'' @ [0x1F600] @ ustr ''y'') (Some [entity ''MessageEntityUrl'' 1 2]) ''html'' =
     Inr (ustr ''<p>x<a href='' @ [dq, 0x1F600, dq] @ ustr ''>'' @ [0x1F600] @ ustr ''</a>y</p>'')"
proof -
  have "valid (ustr ''x'' @ [0x1F600] @ ustr ''y'')" by (simp add: valid_def ustr_def)
  then obtain self where i: "init (ustr ''x'' @ [0x1F600] @ ustr ''y'') (Some [entity ''MessageEntityUrl'' 1 2]) = Inr self"
    using init_valid by blast
  have n: "nl \<notin> set (ustr ''x'' @ [0x1F600] @ ustr ''y'')" by (simp add: ustr_def nl_def)
  have ne: "[0x1F600] \<noteq> ([] :: ustring)" by simp
  have off: "offset (entity ''MessageEntityUrl'' 1 2) = int (units (ustr ''x''))"
    by (simp add: entity_def units_def ustr_def)
  have len: "length_e (entity ''MessageEntityUrl'' 1 2) = int (units [0x1F600])"
    by (simp add: entity_def units_def)
  have t: "apply_entry (set_syntax_dict ''html'' (ename (entity ''MessageEntityUrl'' 1 2)))
             (entity ''MessageEntityUrl'' 1 2) [0x1F600] =
           Inr (Some (Tag (ustr ''<a href='' @ [dq] @ escape [0x1F600] @ [dq] @ ustr ''>'') (ustr ''</a>'')))"
    by (simp add: apply_entry_def set_syntax_dict_def lower_def lower_char_def html_dict_def entity_def)
  have h: "lower ''html'' = ''html''" by (simp add: lower_def lower_char_def)
  from entity_span_in_units [OF i n ne off len t] show ?thesis
    unfolding paragraph_tag_html [OF h]
    by (simp add: escape_def replace_def ustr_def dq_def)
qed

section \<open>The plain-text dictionary\<close>







text \<open>A mention by id with a numeric \<open>user_id\<close> raises: \<open>escape\<close> is called on an integer.\<close>

lemma mention_by_numeric_id_raises:
  "convert (ustr ''hi bob'') (Some [(entity ''MessageEntityMentionName'' 3 3)\<lparr>user_id := IntVal 42\<rparr>]) ''text'' =
     Inl AttributeError"
  by (simp add: eval_defs lower_def lower_char_def text_dict_def)

section \<open>Line breaks inside code\<close>







text \<open>
  A break that is the first character of the code span is decided before the Code tag is
  opened, and is a paragraph break.
\<close>

lemma code_break_first_character:
  "convert (nl # ustr ''b'') (Some [entity ''MessageEntityCode'' 0 2]) ''html'' =
     Inr (ustr ''<p></p><p><pre>b</pre></p>'')"
  by (simp add: eval_defs lower_def lower_char_def html_dict_def)

section \<open>The open and close lists\<close>

lemma pos_at_ensure: "pos_at (ensure_position_exists i ps) k = pos_at ps k"
  by (auto simp: pos_at_def ensure_position_exists_def no_change_def map_add_def split: option.splits)

lemma map_of_ensure: "map_of (ensure_position_exists i ps) i \<noteq> None"
  by (auto simp: ensure_position_exists_def map_add_def split: option.splits)

lemma map_of_ensure_keeps: "map_of ps k \<noteq> None \<Longrightarrow> map_of (ensure_position_exists i ps) k \<noteq> None"
  by (auto simp: ensure_position_exists_def map_add_def split: option.splits)

lemma pos_at_add_tag:
  assumes "map_of ps start \<noteq> None" and "map_of ps stop \<noteq> None"
  shows "to_open (pos_at (add_tag start stop t ps) k) =
           to_open (pos_at ps k) @ (if k = start then [t] else [])"
    and "to_close (pos_at (add_tag start stop t ps) k) =
           (if k = stop then [t] else []) @ to_close (pos_at ps k)"
  using assms
  by (auto simp: pos_at_def add_tag_def map_of_map_entry no_change_def split: option.splits)

lemma prepare_entity_pos_at:
  assumes "prepare_entity d b16 e ps = Inr ps'"
  shows "to_open (pos_at ps' k) =
           to_open (pos_at ps k) @ (if offset e * 2 = k then resolved d b16 e else [])"
    and "to_close (pos_at ps' k) =
           (if (offset e + length_e e) * 2 = k then resolved d b16 e else []) @ to_close (pos_at ps k)"
proof -
  define ps1 where "ps1 = ensure_position_exists ((offset e + length_e e) * 2)
                            (ensure_position_exists (offset e * 2) ps)"
  have p1: "pos_at ps1 k = pos_at ps k" by (simp add: ps1_def pos_at_ensure)
  have k1: "map_of ps1 (offset e * 2) \<noteq> None" "map_of ps1 ((offset e + length_e e) * 2) \<noteq> None"
    unfolding ps1_def by (simp_all add: map_of_ensure map_of_ensure_keeps)
  consider "resolve_tag d b16 e = Inr None" "ps' = ps1"
    | t where "resolve_tag d b16 e = Inr (Some t)"
        "ps' = add_tag (offset e * 2) ((offset e + length_e e) * 2) t ps1"
    using assms unfolding prepare_entity_resolve ps1_def by (auto split: sum.splits option.splits)
  then have "to_open (pos_at ps' k) =
           to_open (pos_at ps k) @ (if offset e * 2 = k then resolved d b16 e else []) \<and>
         to_close (pos_at ps' k) =
           (if (offset e + length_e e) * 2 = k then resolved d b16 e else []) @ to_close (pos_at ps k)"
  proof cases
    case 1
    then show ?thesis by (simp add: p1 resolved_def)
  next
    case 2
    then show ?thesis using pos_at_add_tag [OF k1] by (auto simp: p1 resolved_def)
  qed
  then show "to_open (pos_at ps' k) =
           to_open (pos_at ps k) @ (if offset e * 2 = k then resolved d b16 e else [])"
    and "to_close (pos_at ps' k) =
           (if (offset e + length_e e) * 2 = k then resolved d b16 e else []) @ to_close (pos_at ps k)"
    by simp_all
qed

lemma rev_resolved: "rev (resolved d b16 e) = resolved d b16 e"
  by (simp add: resolved_def split: sum.splits option.splits)

lemma prepare_entities_pos_at:
  "prepare_entities d b16 es ps = Inr ps' \<Longrightarrow>
     to_open (pos_at ps' k) = to_open (pos_at ps k) @ opened_at d b16 es k \<and>
     to_close (pos_at ps' k) = rev (closed_at d b16 es k) @ to_close (pos_at ps k)"
proof (induction es arbitrary: ps)
  case Nil
  then show ?case by (simp add: opened_at_def closed_at_def)
next
  case (Cons e es)
  from Cons.prems obtain ps1 where e: "prepare_entity d b16 e ps = Inr ps1"
    and es: "prepare_entities d b16 es ps1 = Inr ps'"
    by (auto split: sum.splits)
  from Cons.IH [OF es] prepare_entity_pos_at [OF e, of k]
  show ?case by (simp add: opened_at_def closed_at_def rev_resolved)
qed

lemma fresh_positions:
  "pos_at (ensure_position_exists l (ensure_position_exists 0 [])) k = no_change"
  by (simp add: pos_at_ensure) (simp add: pos_at_def)

lemma open_close_lists:
  assumes "prepare_entities d b16 es (ensure_position_exists l (ensure_position_exists 0 [])) = Inr ps"
    and "map_of ps k = Some pc"
  shows "to_open pc = opened_at d b16 es k \<and> to_close pc = rev (closed_at d b16 es k)"
  using prepare_entities_pos_at [OF assms(1), of k] assms(2)
  by (simp add: fresh_positions) (simp add: pos_at_def no_change_def)

section \<open>Two nested entities\<close>

lemma nested_loop:
  assumes v: "valid (a @ b @ c)" and nn: "nl \<notin> set (a @ b @ c)"
    and ne: "a \<noteq> []" "b \<noteq> []" "c \<noteq> []"
    and b16: "b16 = enc (a @ b @ c)"
    and o1: "offset e1 = 0" and l1: "length_e e1 * 2 = int (length b16)"
    and o2: "offset e2 * 2 = int (length (enc a))" and l2: "length_e e2 * 2 = int (length (enc b))"
    and r1: "resolve_tag d b16 e1 = Inr (Some t1)" and r2: "resolve_tag d b16 e2 = Inr (Some t2)"
    and ps0: "ps0 = ensure_position_exists (int (length b16)) (ensure_position_exists 0 [])"
    and es: "es = [e1, e2] \<or> es = [e2, e1]"
  shows "\<exists>ps. prepare_entities d b16 es ps0 = Inr ps \<and>
          render_loop d par nln b16 ps (sort (map fst ps)) ([], out) =
           Inr ([], out @ opening_of t1 @ escape a @ opening_of t2 @ escape b @ closing_of t2 @
                    escape c @ closing_of t1)"
proof -
  have va: "valid a" "valid b" "valid c" using v by (simp_all add: valid_simps)
  define A where "A = length (enc a)"
  define B where "B = length (enc b)"
  define C where "C = length (enc c)"
  have pos: "0 < A" "0 < B" "0 < C"
    using enc_nonempty va ne by (simp_all add: A_def B_def C_def)
  have nls: "replace nl [] a = a" "replace nl [] b = b" "replace nl [] c = c"
    using nn by (simp_all add: replace_nl_none)
  have len: "int (length b16) = int A + int B + int C" by (simp add: b16 enc_simps A_def B_def C_def)
  have l1': "length_e e1 * 2 = int A + int B + int C" using l1 len by simp
  have o2': "offset e2 * 2 = int A" using o2 by (simp add: A_def)
  have l2': "length_e e2 * 2 = int B" using l2 by (simp add: B_def)
  have "\<exists>ps. prepare_entities d b16 es ps0 = Inr ps \<and> sort (map fst ps) = seg_keys [] [a, b, c] \<and>
          render_segments d par nln ps [] [a, b, c] ([], out) =
            Inr ([], out @ opening_of t1 @ escape a @ opening_of t2 @ escape b @ closing_of t2 @
                     escape c @ closing_of t1)"
    using es
  proof
    assume "es = [e1, e2]"
    then show ?thesis
      using pos
      by (simp add: prepare_entity_resolve r1 r2 o1 l1' o2' l2' ps0 len ensure_position_exists_def
          add_tag_def enc_simps render_position_def nls escape_Nil replace_Nil
          A_def [symmetric] B_def [symmetric] C_def [symmetric])
  next
    assume "es = [e2, e1]"
    then show ?thesis
      using pos
      by (simp add: prepare_entity_resolve r1 r2 o1 l1' o2' l2' ps0 len ensure_position_exists_def
          add_tag_def enc_simps render_position_def nls escape_Nil replace_Nil
          A_def [symmetric] B_def [symmetric] C_def [symmetric])
  qed
  then obtain ps where ps: "prepare_entities d b16 es ps0 = Inr ps"
      "sort (map fst ps) = seg_keys [] [a, b, c]"
      "render_segments d par nln ps [] [a, b, c] ([], out) =
            Inr ([], out @ opening_of t1 @ escape a @ opening_of t2 @ escape b @ closing_of t2 @
                     escape c @ closing_of t1)"
    by blast
  have "render_loop d par nln b16 ps (seg_keys [] [a, b, c]) ([], out) =
        render_segments d par nln ps [] [a, b, c] ([], out)"
    by (rule render_loop_segments) (use v ne in \<open>simp_all add: b16\<close>)
  with ps show ?thesis by simp
qed

lemma nested_shared_end_loop:
  assumes v: "valid (a @ b)" and nn: "nl \<notin> set (a @ b)"
    and ne: "a \<noteq> []" "b \<noteq> []"
    and b16: "b16 = enc (a @ b)"
    and o1: "offset e1 = 0" and l1: "length_e e1 * 2 = int (length b16)"
    and o2: "offset e2 * 2 = int (length (enc a))" and l2: "length_e e2 * 2 = int (length (enc b))"
    and r1: "resolve_tag d b16 e1 = Inr (Some t1)" and r2: "resolve_tag d b16 e2 = Inr (Some t2)"
    and ps0: "ps0 = ensure_position_exists (int (length b16)) (ensure_position_exists 0 [])"
  shows "(\<exists>ps. prepare_entities d b16 [e1, e2] ps0 = Inr ps \<and>
          render_loop d par nln b16 ps (sort (map fst ps)) ([], out) =
           Inr ([], out @ opening_of t1 @ escape a @ opening_of t2 @ escape b @ closing_of t2 @
                    closing_of t1)) \<and>
         (\<exists>ps. prepare_entities d b16 [e2, e1] ps0 = Inr ps \<and>
          render_loop d par nln b16 ps (sort (map fst ps)) ([], out) =
           Inr ([], out @ opening_of t1 @ escape a @ opening_of t2 @ escape b @ closing_of t1 @
                    closing_of t2))"
proof -
  have va: "valid a" "valid b" using v by (simp_all add: valid_simps)
  define A where "A = length (enc a)"
  define B where "B = length (enc b)"
  have pos: "0 < A" "0 < B"
    using enc_nonempty va ne by (simp_all add: A_def B_def)
  have nls: "replace nl [] a = a" "replace nl [] b = b"
    using nn by (simp_all add: replace_nl_none)
  have len: "int (length b16) = int A + int B" by (simp add: b16 enc_simps A_def B_def)
  have l1': "length_e e1 * 2 = int A + int B" using l1 len by simp
  have o2': "offset e2 * 2 = int A" using o2 by (simp add: A_def)
  have l2': "length_e e2 * 2 = int B" using l2 by (simp add: B_def)
  have loop: "render_loop d par nln b16 ps (seg_keys [] [a, b]) ([], out) =
        render_segments d par nln ps [] [a, b] ([], out)" for ps
    by (rule render_loop_segments) (use v ne in \<open>simp_all add: b16\<close>)
  have "\<exists>ps. prepare_entities d b16 [e1, e2] ps0 = Inr ps \<and> sort (map fst ps) = seg_keys [] [a, b] \<and>
          render_segments d par nln ps [] [a, b] ([], out) =
            Inr ([], out @ opening_of t1 @ escape a @ opening_of t2 @ escape b @ closing_of t2 @
                     closing_of t1)"
    using pos
    by (simp add: prepare_entity_resolve r1 r2 o1 l1' o2' l2' ps0 len ensure_position_exists_def
        add_tag_def enc_simps render_position_def nls escape_Nil replace_Nil
        A_def [symmetric] B_def [symmetric])
  then have first: "\<exists>ps. prepare_entities d b16 [e1, e2] ps0 = Inr ps \<and>
          render_loop d par nln b16 ps (sort (map fst ps)) ([], out) =
           Inr ([], out @ opening_of t1 @ escape a @ opening_of t2 @ escape b @ closing_of t2 @
                    closing_of t1)"
    using loop by auto
  have "\<exists>ps. prepare_entities d b16 [e2, e1] ps0 = Inr ps \<and> sort (map fst ps) = seg_keys [] [a, b] \<and>
          render_segments d par nln ps [] [a, b] ([], out) =
            Inr ([], out @ opening_of t1 @ escape a @ opening_of t2 @ escape b @ closing_of t1 @
                     closing_of t2)"
    using pos
    by (simp add: prepare_entity_resolve r1 r2 o1 l1' o2' l2' ps0 len ensure_position_exists_def
        add_tag_def enc_simps render_position_def nls escape_Nil replace_Nil
        A_def [symmetric] B_def [symmetric])
  then have second: "\<exists>ps. prepare_entities d b16 [e2, e1] ps0 = Inr ps \<and>
          render_loop d par nln b16 ps (sort (map fst ps)) ([], out) =
           Inr ([], out @ opening_of t1 @ escape a @ opening_of t2 @ escape b @ closing_of t1 @
                    closing_of t2)"
    using loop by auto
  from first second show ?thesis by blast
qed

lemma set_syntax_dict_html: "lower ty = ''html'' \<Longrightarrow> set_syntax_dict ty = html_dict"
  by (simp add: set_syntax_dict_def)

lemma convert_bold_italic:
  assumes h: "lower ty = ''html''" and i: "init (a @ b @ c) (Some es) = Inr self"
    and nn: "nl \<notin> set (a @ b @ c)" and ne: "a \<noteq> []" "b \<noteq> []"
    and e1: "ename e1 = ''MessageEntityBold''" "offset e1 = 0" "length_e e1 = int (units (a @ b @ c))"
    and e2: "ename e2 = ''MessageEntityItalic''" "offset e2 = int (units a)" "length_e e2 = int (units b)"
  shows "c \<noteq> [] \<Longrightarrow> es = [e1, e2] \<or> es = [e2, e1] \<Longrightarrow>
           convert (a @ b @ c) (Some es) ty =
             Inr (ustr ''<p><b>'' @ escape a @ ustr ''<i>'' @ escape b @ ustr ''</i>'' @ escape c @
                  ustr ''</b></p>'')"
    and "c = [] \<Longrightarrow> es = [e1, e2] \<Longrightarrow>
           convert (a @ b @ c) (Some es) ty =
             Inr (ustr ''<p><b>'' @ escape a @ ustr ''<i>'' @ escape b @ ustr ''</i></b></p>'')"
    and "c = [] \<Longrightarrow> es = [e2, e1] \<Longrightarrow>
           convert (a @ b @ c) (Some es) ty =
             Inr (ustr ''<p><b>'' @ escape a @ ustr ''<i>'' @ escape b @ ustr ''</b></i></p>'')"
proof -
  from init_Inr [OF i] have v: "valid (a @ b @ c)" by simp
  have va: "valid a" "valid b" using v by (simp_all add: valid_simps)
  define ps0 where "ps0 = ensure_position_exists (int (length (enc (a @ b @ c)))) (ensure_position_exists 0 [])"
  define t1 where "t1 = Tag (ustr ''<b>'') (ustr ''</b>'')"
  define t2 where "t2 = Tag (ustr ''<i>'') (ustr ''</i>'')"
  have l1: "length_e e1 * 2 = int (length (enc (a @ b @ c)))"
    using e1(3) length_enc_units [OF v] by simp
  have o2: "offset e2 * 2 = int (length (enc a))"
    using e2(2) length_enc_units [OF va(1)] by simp
  have l2: "length_e e2 * 2 = int (length (enc b))"
    using e2(3) length_enc_units [OF va(2)] by simp
  have r1: "resolve_tag (set_syntax_dict ty) (enc (a @ b @ c)) e1 = Inr (Some t1)"
    by (simp add: resolve_tag_def set_syntax_dict_html [OF h] html_dict_def e1(1) t1_def)
  have r2: "resolve_tag (set_syntax_dict ty) (enc (a @ b @ c)) e2 = Inr (Some t2)"
    by (simp add: resolve_tag_def set_syntax_dict_html [OF h] html_dict_def e2(1) t2_def)
  have nk: "nlkeys [] (a @ b @ c) = []" using nn by (rule nlkeys_none)
  note p = paragraph_tag_html [OF h]
  {
    assume c: "c \<noteq> []" and es: "es = [e1, e2] \<or> es = [e2, e1]"
    have nf: "\<not> (falsy (Some es) \<and> nl \<notin> set (a @ b @ c))" using es by (auto simp: falsy_def)
    obtain ps where "prepare_entities (set_syntax_dict ty) (enc (a @ b @ c)) es ps0 = Inr ps"
      "render_loop (set_syntax_dict ty) (paragraph_tag ty) (newline_tag ty) (enc (a @ b @ c)) ps
         (sort (map fst ps)) ([], []) =
       Inr ([], [] @ opening_of t1 @ escape a @ opening_of t2 @ escape b @ closing_of t2 @
                escape c @ closing_of t1)"
      using nested_loop [OF v nn ne c refl e1(2) l1 o2 l2 r1 r2 ps0_def es] by blast
    then show "convert (a @ b @ c) (Some es) ty =
             Inr (ustr ''<p><b>'' @ escape a @ ustr ''<i>'' @ escape b @ ustr ''</i>'' @ escape c @
                  ustr ''</b></p>'')"
      unfolding convert_full [OF v nf] nk
      by (simp add: prepare_entity_positions_utf16le_def ps0_def p t1_def t2_def ustr_def)
  }
  {
    assume c: "c = []"
    have v': "valid (a @ b)" and nn': "nl \<notin> set (a @ b)" using v nn c by simp_all
    have l1': "length_e e1 * 2 = int (length (enc (a @ b)))" using l1 c by simp
    have r1': "resolve_tag (set_syntax_dict ty) (enc (a @ b)) e1 = Inr (Some t1)" using r1 c by simp
    have r2': "resolve_tag (set_syntax_dict ty) (enc (a @ b)) e2 = Inr (Some t2)" using r2 c by simp
    have ps0': "ps0 = ensure_position_exists (int (length (enc (a @ b)))) (ensure_position_exists 0 [])"
      using c by (simp add: ps0_def)
    note both = nested_shared_end_loop [OF v' nn' ne refl e1(2) l1' o2 l2 r1' r2' ps0',
        of "paragraph_tag ty" "newline_tag ty" "[]"]
    {
      assume es: "es = [e1, e2]"
      have nf: "\<not> (falsy (Some es) \<and> nl \<notin> set (a @ b @ c))" using es by (auto simp: falsy_def)
      obtain ps where "prepare_entities (set_syntax_dict ty) (enc (a @ b)) [e1, e2] ps0 = Inr ps"
        "render_loop (set_syntax_dict ty) (paragraph_tag ty) (newline_tag ty) (enc (a @ b)) ps
           (sort (map fst ps)) ([], []) =
         Inr ([], [] @ opening_of t1 @ escape a @ opening_of t2 @ escape b @ closing_of t2 @ closing_of t1)"
        using both by blast
      then show "convert (a @ b @ c) (Some es) ty =
             Inr (ustr ''<p><b>'' @ escape a @ ustr ''<i>'' @ escape b @ ustr ''</i></b></p>'')"
        unfolding convert_full [OF v nf] nk
        by (simp add: prepare_entity_positions_utf16le_def ps0' p t1_def t2_def ustr_def c es)
    }
    {
      assume es: "es = [e2, e1]"
      have nf: "\<not> (falsy (Some es) \<and> nl \<notin> set (a @ b @ c))" using es by (auto simp: falsy_def)
      obtain ps where "prepare_entities (set_syntax_dict ty) (enc (a @ b)) [e2, e1] ps0 = Inr ps"
        "render_loop (set_syntax_dict ty) (paragraph_tag ty) (newline_tag ty) (enc (a @ b)) ps
           (sort (map fst ps)) ([], []) =
         Inr ([], [] @ opening_of t1 @ escape a @ opening_of t2 @ escape b @ closing_of t1 @ closing_of t2)"
        using both by blast
      then show "convert (a @ b @ c) (Some es) ty =
             Inr (ustr ''<p><b>'' @ escape a @ ustr ''<i>'' @ escape b @ ustr ''</b></i></p>'')"
        unfolding convert_full [OF v nf] nk
        by (simp add: prepare_entity_positions_utf16le_def ps0' p t1_def t2_def ustr_def c es)
    }
  }
qed

text \<open>
  Claim C2, as the code has it. A Bold entity over the whole text and a non-empty Italic
  entity that starts after the first character are rendered in HTML as
  \<open><b>\<close>, \<open><i>\<close>, \<open></i>\<close>, \<open></b>\<close> in this order when the Italic entity ends before the
  end of the text (in either order of the entity list) or ends with the text and is
  listed after the Bold entity. In general the open list of an offset holds the tags of
  the entities that start there in the order of the entity list, and its close list holds
  the tags of the entities that end there in the reverse of that order: the close order is
  the reverse of the list order, which is the reverse of the opening order only when the
  enclosing entity is listed first.
\<close>

theorem nested_tags_closing_order:
  "(\<forall>ty a b c e1 e2 es self.
      lower ty = ''html'' \<longrightarrow> init (a @ b @ c) (Some es) = Inr self \<longrightarrow>
      nl \<notin> set (a @ b @ c) \<longrightarrow> a \<noteq> [] \<longrightarrow> b \<noteq> [] \<longrightarrow>
      ename e1 = ''MessageEntityBold'' \<longrightarrow> offset e1 = 0 \<longrightarrow> length_e e1 = int (units (a @ b @ c)) \<longrightarrow>
      ename e2 = ''MessageEntityItalic'' \<longrightarrow> offset e2 = int (units a) \<longrightarrow> length_e e2 = int (units b) \<longrightarrow>
      (c \<noteq> [] \<and> (es = [e1, e2] \<or> es = [e2, e1]) \<or> c = [] \<and> es = [e1, e2]) \<longrightarrow>
      convert (a @ b @ c) (Some es) ty =
        Inr (ustr ''<p><b>'' @ escape a @ ustr ''<i>'' @ escape b @ ustr ''</i>'' @ escape c @
             ustr ''</b></p>'')) \<and>
   (\<forall>d b16 es l ps k pc.
      prepare_entities d b16 es (ensure_position_exists l (ensure_position_exists 0 [])) = Inr ps \<longrightarrow>
      map_of ps k = Some pc \<longrightarrow>
      to_open pc = opened_at d b16 es k \<and> to_close pc = rev (closed_at d b16 es k))"
proof (intro conjI allI impI)
  fix ty a b c e1 e2 es self
  assume h: "lower ty = ''html''" and i: "init (a @ b @ c) (Some es) = Inr self"
    and nn: "nl \<notin> set (a @ b @ c)" and ne: "a \<noteq> []" "b \<noteq> []"
    and e1: "ename e1 = ''MessageEntityBold''" "offset e1 = 0" "length_e e1 = int (units (a @ b @ c))"
    and e2: "ename e2 = ''MessageEntityItalic''" "offset e2 = int (units a)" "length_e e2 = int (units b)"
    and shape: "c \<noteq> [] \<and> (es = [e1, e2] \<or> es = [e2, e1]) \<or> c = [] \<and> es = [e1, e2]"
  from shape show "convert (a @ b @ c) (Some es) ty =
        Inr (ustr ''<p><b>'' @ escape a @ ustr ''<i>'' @ escape b @ ustr ''</i>'' @ escape c @
             ustr ''</b></p>'')"
  proof
    assume "c \<noteq> [] \<and> (es = [e1, e2] \<or> es = [e2, e1])"
    then show ?thesis using convert_bold_italic(1) [OF h i nn ne e1 e2] by blast
  next
    assume "c = [] \<and> es = [e1, e2]"
    then show ?thesis using convert_bold_italic(2) [OF h i nn ne e1 e2]
      by (simp add: escape_Nil ustr_def)
  qed
next
  fix d b16 es l ps k and pc :: position_change
  assume p: "prepare_entities d b16 es (ensure_position_exists l (ensure_position_exists 0 [])) = Inr ps"
    and m: "map_of ps k = Some pc"
  from open_close_lists [OF p m]
  show "to_open pc = opened_at d b16 es k" and "to_close pc = rev (closed_at d b16 es k)"
    by simp_all
qed

theorem nested_tags_closing_order_witness:
  "convert (ustr ''abcdef'')
     (Some [entity ''MessageEntityItalic'' 2 2, entity ''MessageEntityBold'' 0 6]) ''html'' =
     Inr (ustr ''<p><b>ab<i>cd</i>ef</b></p>'')"
proof -
  define e1 where "e1 = entity ''MessageEntityBold'' 0 6"
  define e2 where "e2 = entity ''MessageEntityItalic'' 2 2"
  have "valid (ustr ''ab'' @ ustr ''cd'' @ ustr ''ef'')" by (simp add: valid_def ustr_def)
  then obtain self where i: "init (ustr ''ab'' @ ustr ''cd'' @ ustr ''ef'') (Some [e2, e1]) = Inr self"
    using init_valid by blast
  have h: "lower ''html'' = ''html''" by (simp add: lower_def lower_char_def)
  have nn: "nl \<notin> set (ustr ''ab'' @ ustr ''cd'' @ ustr ''ef'')" by (simp add: ustr_def nl_def)
  have ne: "ustr ''ab'' \<noteq> []" "ustr ''cd'' \<noteq> []" "ustr ''ef'' \<noteq> []" by (simp_all add: ustr_def)
  have k1: "ename e1 = ''MessageEntityBold''" "offset e1 = 0"
    "length_e e1 = int (units (ustr ''ab'' @ ustr ''cd'' @ ustr ''ef''))"
    by (simp_all add: e1_def entity_def units_def ustr_def)
  have k2: "ename e2 = ''MessageEntityItalic''" "offset e2 = int (units (ustr ''ab''))"
    "length_e e2 = int (units (ustr ''cd''))"
    by (simp_all add: e2_def entity_def units_def ustr_def)
  from nested_tags_closing_order h i nn ne k1 k2
  have "convert (ustr ''ab'' @ ustr ''cd'' @ ustr ''ef'') (Some [e2, e1]) ''html'' =
        Inr (ustr ''<p><b>'' @ escape (ustr ''ab'') @ ustr ''<i>'' @ escape (ustr ''cd'') @ ustr ''</i>'' @
             escape (ustr ''ef'') @ ustr ''</b></p>'')"
    by blast
  then show ?thesis
    by (simp add: e1_def e2_def escape_def replace_def ustr_def dq_def)
qed

text \<open>
  The claim as it is written fails when the Italic entity ends with the text and is listed
  before the Bold entity: Bold, opened first, is closed first.
\<close>

theorem inner_entity_listed_first:
  "convert (ustr ''abcd'')
     (Some [entity ''MessageEntityItalic'' 2 2, entity ''MessageEntityBold'' 0 4]) ''html'' =
     Inr (ustr ''<p><b>ab<i>cd</b></i></p>'')"
  by (simp add: eval_defs lower_def lower_char_def html_dict_def)

section \<open>The text in the output of the full algorithm\<close>

lemma units_of_bytes_append:
  "units_of_bytes x = Inr ux \<Longrightarrow> units_of_bytes y = Inr uy \<Longrightarrow> units_of_bytes (x @ y) = Inr (ux @ uy)"
proof (induction x arbitrary: ux rule: units_of_bytes.induct)
  case 1
  then show ?case by simp
next
  case (2 b)
  then show ?case by simp
next
  case (3 lo hi bs)
  from "3.prems"(1) obtain us where us: "units_of_bytes bs = Inr us" "ux = (lo + 256 * hi) # us"
    by (cases "units_of_bytes bs") auto
  from "3.IH" [OF us(1) "3.prems"(2)] us(2) show ?case by simp
qed

lemma decode_units_append:
  "decode_units ux = Inr a \<Longrightarrow> decode_units uy = Inr b \<Longrightarrow> decode_units (ux @ uy) = Inr (a @ b)"
proof (induction ux arbitrary: a rule: decode_units.induct)
  case 1
  then show ?case by simp
next
  case (2 u us)
  show ?case
  proof (cases "u < 0xD800 \<or> 0xE000 \<le> u")
    case True
    with "2.prems"(1) obtain cs where cs: "decode_units us = Inr cs" "a = u # cs"
      by (cases "decode_units us") auto
    from "2.IH"(1) [OF True cs(1) "2.prems"(2)] True cs(2) show ?thesis by simp
  next
    case False
    with "2.prems"(1) have hi: "u < 0xDC00"
      by (auto split: if_splits)
    with False "2.prems"(1) obtain l rest where us: "us = l # rest"
      by (cases us) auto
    with False hi "2.prems"(1) have lo: "0xDC00 \<le> l \<and> l < 0xE000"
      by (auto split: if_splits)
    with False hi us "2.prems"(1) obtain cs where cs: "decode_units rest = Inr cs"
        "a = (0x10000 + (u - 0xD800) * 0x400 + (l - 0xDC00)) # cs"
      by (cases "decode_units rest") auto
    from "2.IH"(2) [OF False hi us lo cs(1) "2.prems"(2)] False hi us lo cs(2)
    show ?thesis by simp
  qed
qed

lemma decode_append:
  assumes "decode x = Inr a" and "decode y = Inr b"
  shows "decode (x @ y) = Inr (a @ b)"
proof -
  obtain ux where ux: "units_of_bytes x = Inr ux" "decode_units ux = Inr a"
    using assms(1) by (auto simp: decode_def split: sum.splits)
  obtain uy where uy: "units_of_bytes y = Inr uy" "decode_units uy = Inr b"
    using assms(2) by (auto simp: decode_def split: sum.splits)
  show ?thesis
    by (simp add: decode_def units_of_bytes_append [OF ux(1) uy(1)] decode_units_append [OF ux(2) uy(2)])
qed

lemma drop_slice:
  assumes "0 \<le> k" and "k \<le> k'" and "k' \<le> int (length b)"
  shows "drop (nat k) b = slice b k (Some k') @ drop (nat k') b"
proof -
  have "slice b k (Some k') = take (nat k' - nat k) (drop (nat k) b)"
    using assms by (simp add: slice_def slice_index_def Let_def)
  moreover have "drop (nat k') b = drop (nat k' - nat k) (drop (nat k) b)"
    using assms by simp
  moreover have "drop (nat k) b =
      take (nat k' - nat k) (drop (nat k) b) @ drop (nat k' - nat k) (drop (nat k) b)"
    by (simp only: append_take_drop_id)
  ultimately show ?thesis by (simp only:)
qed

lemma close_tags_out:
  "close_tags ts (stk, out) = Inr (stk', out') \<Longrightarrow> \<exists>m. out' = out @ m"
proof (induction ts arbitrary: stk out)
  case Nil
  then show ?case by simp
next
  case (Cons t ts)
  then have "close_tags ts (butlast stk, out @ closing_of t) = Inr (stk', out')"
    by (simp split: if_splits)
  from Cons.IH [OF this] obtain m where "out' = (out @ closing_of t) @ m" ..
  then have "out' = out @ (closing_of t @ m)" by simp
  then show ?case ..
qed

lemma open_tags_out: "open_tags ts (stk, out) = (stk', out') \<Longrightarrow> \<exists>m. out' = out @ m"
proof (induction ts arbitrary: stk out)
  case Nil
  then show ?case by simp
next
  case (Cons t ts)
  then have "open_tags ts (stk @ [t], out @ opening_of t) = (stk', out')" by simp
  from Cons.IH [OF this] obtain m where "out' = (out @ opening_of t) @ m" ..
  then have "out' = out @ (opening_of t @ m)" by simp
  then show ?case ..
qed

lemma render_position_piece:
  assumes "render_position d par nln pc seg (stk, out) = Inr (stk', out')"
  shows "\<exists>m. out' = out @ m @ escape (replace nl [] seg)"
proof -
  from assms obtain o1 out1 brk o2 out2
    where c: "close_tags (to_close pc) (stk, out) = Inr (o1, out1)"
      and o: "open_tags (to_open pc) (o1, out1 @ brk) = (o2, out2)"
      and r: "out' = out2 @ escape (replace nl [] seg)"
    by (auto simp: render_position_def split: sum.splits prod.splits)
  from close_tags_out [OF c] open_tags_out [OF o] r show ?thesis by auto
qed

lemma render_loop_beyond_end:
  "ks \<noteq> [] \<Longrightarrow> \<forall>k\<in>set ks. k \<noteq> int (length b16) \<Longrightarrow>
     \<exists>err. render_loop d par nln b16 ps ks st = Inl err"
proof (induction ks arbitrary: st)
  case Nil
  then show ?case by simp
next
  case (Cons k rest)
  show ?case
  proof (cases rest)
    case Nil
    with Cons.prems show ?thesis by simp
  next
    case (Cons k' rest')
    then have "\<exists>err. render_loop d par nln b16 ps rest st' = Inl err" for st'
      using Cons.IH Cons.prems by simp
    then show ?thesis
      by (auto split: sum.splits option.splits list.splits)
  qed
qed

lemma pieces_Cons: "pieces ((m, s) # xs) = m @ escape (replace nl [] s) @ pieces xs"
  by (simp add: pieces_def)

lemma render_loop_Cons_Inr:
  assumes "render_loop d par nln b16 ps (k # rest) st = Inr st'"
  shows "\<exists>next_index seg pc st1.
           (if k \<noteq> int (length b16)
            then (case rest of [] \<Rightarrow> Inl IndexError | n # _ \<Rightarrow> Inr (Some n))
            else Inr None) = Inr next_index \<and>
           decode (slice b16 k next_index) = Inr seg \<and> map_of ps k = Some pc \<and>
           render_position d par nln pc seg st = Inr st1 \<and>
           render_loop d par nln b16 ps rest st1 = Inr st'"
proof (cases "if k \<noteq> int (length b16)
            then (case rest of [] \<Rightarrow> Inl IndexError | n # _ \<Rightarrow> Inr (Some n))
            else Inr None")
  case (Inl x)
  with assms show ?thesis by simp
next
  case ni: (Inr next_index)
  show ?thesis
  proof (cases "decode (slice b16 k next_index)")
    case (Inl x)
    with assms ni show ?thesis by simp
  next
    case dec: (Inr seg)
    show ?thesis
    proof (cases "map_of ps k")
      case None
      with assms ni dec show ?thesis by simp
    next
      case (Some pc)
      show ?thesis
      proof (cases "render_position d par nln pc seg st")
        case (Inl x)
        with assms ni dec Some show ?thesis by simp
      next
        case rp: (Inr st1)
        with assms ni dec Some have "render_loop d par nln b16 ps rest st1 = Inr st'" by simp
        with ni dec Some rp show ?thesis by blast
      qed
    qed
  qed
qed

lemma render_loop_pieces:
  assumes "sorted_wrt (<) ks" and "ks \<noteq> []" and "0 \<le> hd ks"
    and "render_loop d par nln b16 ps ks (stk, out) = Inr (stk', out')"
  shows "hd ks \<le> int (length b16) \<and>
         (\<exists>xs. out' = out @ pieces xs \<and> decode (drop (nat (hd ks)) b16) = Inr (concat (map snd xs)))"
  using assms
proof (induction ks arbitrary: stk out)
  case Nil
  then show ?case by simp
next
  case (Cons k rest)
  from render_loop_Cons_Inr [OF Cons.prems(4)] obtain next_index seg pc st1
    where ni: "(if k \<noteq> int (length b16)
                then (case rest of [] \<Rightarrow> Inl IndexError | n # _ \<Rightarrow> Inr (Some n))
                else Inr None) = Inr next_index"
      and dec: "decode (slice b16 k next_index) = Inr seg"
      and rp: "render_position d par nln pc seg (stk, out) = Inr st1"
      and rl: "render_loop d par nln b16 ps rest st1 = Inr (stk', out')"
    by blast
  obtain stk1 out1 where st1: "st1 = (stk1, out1)" by (cases st1)
  from render_position_piece [OF rp [unfolded st1]]
  obtain m where m: "out1 = out @ m @ escape (replace nl [] seg)" ..
  have k0: "0 \<le> k" using Cons.prems(3) by simp
  show ?case
  proof (cases "k = int (length b16)")
    case True
    have rest: "rest = []"
    proof (rule ccontr)
      assume ne: "rest \<noteq> []"
      have "\<forall>k'\<in>set rest. k' \<noteq> int (length b16)" using Cons.prems(1) True by auto
      from render_loop_beyond_end [OF ne this, of d par nln ps st1] rl show False by auto
    qed
    have "next_index = None" using ni True by simp
    then have seg: "seg = []" using dec True by (simp add: slice_def slice_index_def decode_def)
    have o: "out' = out @ pieces [(m, [])]"
      using rest rl m seg by (simp add: st1 pieces_def)
    have d: "decode (drop (nat k) b16) = Inr (concat (map snd [(m, [] :: ustring)]))"
      using True by (simp add: decode_def)
    have "\<exists>xs. out' = out @ pieces xs \<and> decode (drop (nat k) b16) = Inr (concat (map snd xs))"
      using o d by blast
    with True show ?thesis by simp
  next
    case False
    with ni obtain k' rest' where rest: "rest = k' # rest'" and nx: "next_index = Some k'"
      by (cases rest) auto
    have lt: "k < k'" using Cons.prems(1) rest by simp
    have srt: "sorted_wrt (<) rest" using Cons.prems(1) by simp
    have ne: "rest \<noteq> []" using rest by simp
    have h0: "0 \<le> hd rest" using rest k0 lt by simp
    from Cons.IH [OF srt ne h0 rl [unfolded st1]] rest
    obtain xs where le: "k' \<le> int (length b16)" and xs: "out' = out1 @ pieces xs"
      "decode (drop (nat k') b16) = Inr (concat (map snd xs))"
      by auto
    have "drop (nat k) b16 = slice b16 k (Some k') @ drop (nat k') b16"
      using k0 lt le by (intro drop_slice) simp_all
    then have d: "decode (drop (nat k) b16) = Inr (concat (map snd ((m, seg) # xs)))"
      using decode_append [OF dec [unfolded nx] xs(2)] by simp
    have o: "out' = out @ pieces ((m, seg) # xs)"
      using xs(1) m by (simp add: pieces_Cons)
    have "\<exists>xs. out' = out @ pieces xs \<and> decode (drop (nat k) b16) = Inr (concat (map snd xs))"
      using o d by blast
    moreover have "k \<le> int (length b16)" using lt le by simp
    ultimately show ?thesis by simp
  qed
qed

lemma keys_ensure:
  "set (map fst (ensure_position_exists i ps)) = insert i (set (map fst ps))"
  by (auto simp: ensure_position_exists_def map_of_eq_None_iff)

lemma distinct_ensure:
  "distinct (map fst ps) \<Longrightarrow> distinct (map fst (ensure_position_exists i ps))"
  by (auto simp: ensure_position_exists_def map_of_eq_None_iff)

lemma map_fst_map_entry: "map fst (AList.map_entry k f xs) = map fst xs"
  by (induction xs) auto

lemma map_fst_add_tag: "map fst (add_tag start stop t ps) = map fst ps"
  by (simp add: add_tag_def map_fst_map_entry)

lemma keys_prepare_entity:
  assumes "prepare_entity d b16 e ps = Inr ps'"
  shows "set (map fst ps') = insert ((offset e + length_e e) * 2) (insert (offset e * 2) (set (map fst ps)))"
    and "distinct (map fst ps) \<Longrightarrow> distinct (map fst ps')"
proof -
  from assms have "map fst ps' = map fst (ensure_position_exists ((offset e + length_e e) * 2)
      (ensure_position_exists (offset e * 2) ps))"
    unfolding prepare_entity_resolve
    by (auto simp: map_fst_add_tag split: sum.splits option.splits)
  then show "set (map fst ps') = insert ((offset e + length_e e) * 2) (insert (offset e * 2) (set (map fst ps)))"
    and "distinct (map fst ps) \<Longrightarrow> distinct (map fst ps')"
    by (simp_all add: keys_ensure distinct_ensure del: set_map)
qed

lemma keys_prepare_entities:
  "prepare_entities d b16 es ps = Inr ps' \<Longrightarrow>
     set (map fst ps') =
       set (map fst ps) \<union> (\<lambda>e. offset e * 2) ` set es \<union> (\<lambda>e. (offset e + length_e e) * 2) ` set es \<and>
     (distinct (map fst ps) \<longrightarrow> distinct (map fst ps'))"
proof (induction es arbitrary: ps)
  case Nil
  then show ?case by simp
next
  case (Cons e es)
  from Cons.prems obtain ps1 where e: "prepare_entity d b16 e ps = Inr ps1"
    and es: "prepare_entities d b16 es ps1 = Inr ps'"
    by (auto split: sum.splits)
  from Cons.IH [OF es] keys_prepare_entity [OF e] show ?case
    by (auto simp del: set_map)
qed

lemma nlkeys_nonneg: "k \<in> set (nlkeys p t) \<Longrightarrow> 0 \<le> k"
  by (induction t arbitrary: p) (auto split: if_splits)

lemma hd_sorted_least:
  fixes ks :: "int list"
  assumes "sorted ks" and "x \<in> set ks"
  shows "hd ks \<le> x"
  using assms by (cases ks) auto

lemma keys_prepare_entity_positions:
  assumes "prepare_entity_positions_utf16le d b16 ents ps = Inr ps'"
  shows "set (map fst ps') =
       set (map fst ps) \<union> (\<lambda>e. offset e * 2) ` set (case ents of None \<Rightarrow> [] | Some es \<Rightarrow> es) \<union>
       (\<lambda>e. (offset e + length_e e) * 2) ` set (case ents of None \<Rightarrow> [] | Some es \<Rightarrow> es)"
    and "distinct (map fst ps) \<Longrightarrow> distinct (map fst ps')"
proof -
  have "set (map fst ps') =
       set (map fst ps) \<union> (\<lambda>e. offset e * 2) ` set (case ents of None \<Rightarrow> [] | Some es \<Rightarrow> es) \<union>
       (\<lambda>e. (offset e + length_e e) * 2) ` set (case ents of None \<Rightarrow> [] | Some es \<Rightarrow> es) \<and>
       (distinct (map fst ps) \<longrightarrow> distinct (map fst ps'))"
  proof (cases ents)
    case None
    with assms show ?thesis by (simp add: prepare_entity_positions_utf16le_def)
  next
    case (Some es)
    with assms have "prepare_entities d b16 es ps = Inr ps'"
      by (simp add: prepare_entity_positions_utf16le_def)
    from keys_prepare_entities [OF this] Some show ?thesis by simp
  qed
  then show "set (map fst ps') =
       set (map fst ps) \<union> (\<lambda>e. offset e * 2) ` set (case ents of None \<Rightarrow> [] | Some es \<Rightarrow> es) \<union>
       (\<lambda>e. (offset e + length_e e) * 2) ` set (case ents of None \<Rightarrow> [] | Some es \<Rightarrow> es)"
    and "distinct (map fst ps) \<Longrightarrow> distinct (map fst ps')"
    by simp_all
qed

text \<open>
  Whenever the full algorithm returns, for entities that do not start or end before the
  start of the text, its result is the paragraph opening, then pieces of markup each
  followed by the escaped text of a segment with the line breaks removed, then the
  paragraph closing; the segments, in order, are the message.
\<close>

lemma full_algorithm_text:
  assumes i: "init msg ents = Inr self" and nf: "\<not> (falsy ents \<and> nl \<notin> set msg)"
    and nonneg: "\<forall>e\<in>set (entity_list ents). 0 \<le> offset e \<and> 0 \<le> offset e + length_e e"
    and conv: "convert msg ents ty = Inr s"
  shows "\<exists>xs. concat (map snd xs) = msg \<and>
           s = opening_of (paragraph_tag ty) @ pieces xs @ closing_of (paragraph_tag ty)"
proof -
  from init_Inr [OF i] have v: "valid msg" by simp
  define ps0 where "ps0 = ensure_position_exists (int (length (enc msg))) (ensure_position_exists 0 [])"
  from conv obtain ps1 stk out
    where p1: "prepare_entity_positions_utf16le (set_syntax_dict ty) (enc msg) ents ps0 = Inr ps1"
      and rl: "render_loop (set_syntax_dict ty) (paragraph_tag ty) (newline_tag ty) (enc msg)
                 (foldl mark_br ps1 (nlkeys [] msg))
                 (sort (map fst (foldl mark_br ps1 (nlkeys [] msg)))) ([], []) = Inr (stk, out)"
      and s: "s = opening_of (paragraph_tag ty) @ out @ closing_of (paragraph_tag ty)"
    unfolding convert_full [OF v nf] ps0_def by (auto split: sum.splits)
  define ps2 where "ps2 = foldl mark_br ps1 (nlkeys [] msg)"
  define ks where "ks = sort (map fst ps2)"
  have k0: "set (map fst ps0) = {0, int (length (enc msg))}" "distinct (map fst ps0)"
    by (auto simp: ps0_def keys_ensure distinct_ensure ensure_position_exists_def)
  have k2: "set (map fst ps2) =
       {0, int (length (enc msg))} \<union>
       (\<lambda>e. offset e * 2) ` set (case ents of None \<Rightarrow> [] | Some es \<Rightarrow> es) \<union>
       (\<lambda>e. (offset e + length_e e) * 2) ` set (case ents of None \<Rightarrow> [] | Some es \<Rightarrow> es) \<union>
       set (nlkeys [] msg)"
    unfolding ps2_def keys_foldl_mark_br keys_prepare_entity_positions(1) [OF p1] k0(1) ..
  have d2: "distinct (map fst ps2)"
    unfolding ps2_def
    by (rule distinct_foldl_mark_br) (rule keys_prepare_entity_positions(2) [OF p1 k0(2)])
  have nonneg_keys: "0 \<le> k" if "k \<in> set ks" for k
  proof -
    from that have "k \<in> set (map fst ps2)" by (simp add: ks_def del: set_map)
    then show ?thesis unfolding k2 using nonneg nlkeys_nonneg by (auto simp: entity_list_def)
  qed
  have zero: "0 \<in> set ks" unfolding ks_def using k2 by (simp del: set_map)
  have srt: "sorted_wrt (<) ks" unfolding strict_sorted_iff ks_def using d2 by simp
  have ne: "ks \<noteq> []" using zero by auto
  have "hd ks \<le> 0" using srt zero by (intro hd_sorted_least) (simp_all add: strict_sorted_iff)
  moreover have "0 \<le> hd ks" using ne nonneg_keys by simp
  ultimately have hd: "hd ks = 0" by simp
  from render_loop_pieces [OF srt ne _ rl [folded ps2_def, folded ks_def]] hd
  obtain xs where xs: "out = [] @ pieces xs" "decode (drop (nat 0) (enc msg)) = Inr (concat (map snd xs))"
    by auto
  from xs(2) decode_enc [OF v] have "concat (map snd xs) = msg" by simp
  with xs(1) s show ?thesis by auto
qed

section \<open>Paragraphs\<close>

text \<open>
  Claim C3. The text \<open>A\nB\<close> without entities becomes \<open><p>A</p><p>B</p>\<close> in HTML. In
  general, a message with a line break and no entities is rendered character by
  character: a line break closes the paragraph and opens the next one, every other
  character is escaped, and the paragraph tag wraps the whole once, its opening at the
  start and its closing at the end. With entities (none of them starting or ending before
  the start of the text) the result of the full algorithm, when it returns, is wrapped
  once in the same way.
\<close>

theorem paragraph_wrapping:
  "convert (ustr ''A'' @ [nl] @ ustr ''B'') None ''html'' = Inr (ustr ''<p>A</p><p>B</p>'') \<and>
   (\<forall>msg ents ty self. init msg ents = Inr self \<longrightarrow> falsy ents \<longrightarrow> nl \<in> set msg \<longrightarrow>
      convert msg ents ty =
        Inr (opening_of (paragraph_tag ty) @ concat (map (plain_char (paragraph_tag ty)) msg) @
             closing_of (paragraph_tag ty))) \<and>
   (\<forall>msg ents ty self s. init msg ents = Inr self \<longrightarrow> \<not> (falsy ents \<and> nl \<notin> set msg) \<longrightarrow>
      (\<forall>e\<in>set (entity_list ents). 0 \<le> offset e \<and> 0 \<le> offset e + length_e e) \<longrightarrow>
      convert msg ents ty = Inr s \<longrightarrow>
      (\<exists>xs. concat (map snd xs) = msg \<and>
            s = opening_of (paragraph_tag ty) @ pieces xs @ closing_of (paragraph_tag ty)))"
proof -
  have "valid (ustr ''A'' @ [nl] @ ustr ''B'')" by (simp add: valid_def ustr_def nl_def)
  then obtain self where i: "init (ustr ''A'' @ [nl] @ ustr ''B'') None = Inr self"
    using init_valid by blast
  have h: "lower ''html'' = ''html''" by (simp add: lower_def lower_char_def)
  have "convert (ustr ''A'' @ [nl] @ ustr ''B'') None ''html'' =
        Inr (opening_of (paragraph_tag ''html'') @
             concat (map (plain_char (paragraph_tag ''html'')) (ustr ''A'' @ [nl] @ ustr ''B'')) @
             closing_of (paragraph_tag ''html''))"
    by (rule convert_plain [OF i]) (simp_all add: falsy_def)
  then have "convert (ustr ''A'' @ [nl] @ ustr ''B'') None ''html'' = Inr (ustr ''<p>A</p><p>B</p>'')"
    unfolding paragraph_tag_html [OF h]
    by (simp add: plain_char_def escape_def replace_def ustr_def nl_def dq_def)
  then show ?thesis using convert_plain full_algorithm_text by blast
qed

theorem paragraph_wrapping_witness:
  "convert (ustr ''x'' @ [nl]) (Some []) ''md'' = Inr (ustr ''x'' @ [nl, nl])"
proof -
  have "valid (ustr ''x'' @ [nl])" by (simp add: valid_def ustr_def nl_def)
  then obtain self where i: "init (ustr ''x'' @ [nl]) (Some []) = Inr self"
    using init_valid by blast
  have f: "falsy (Some [])" by (simp add: falsy_def)
  have n: "nl \<in> set (ustr ''x'' @ [nl])" by simp
  have md: "lower ''md'' \<noteq> ''html''" by (simp add: lower_def lower_char_def)
  from paragraph_wrapping i f n
  have "convert (ustr ''x'' @ [nl]) (Some []) ''md'' =
        Inr (opening_of (paragraph_tag ''md'') @
             concat (map (plain_char (paragraph_tag ''md'')) (ustr ''x'' @ [nl])) @
             closing_of (paragraph_tag ''md''))"
    by blast
  then show ?thesis
    unfolding paragraph_tag_other [OF md]
    by (simp add: plain_char_def escape_def replace_def ustr_def nl_def dq_def)
qed

section \<open>Escaping of the text\<close>

text \<open>
  Claim C8. Under HTML (in any letter case) the full algorithm passes the text through
  \<open>escape\<close>, so \<open><\<close>, \<open>>\<close> and \<open>&\<close> come out as \<open>&lt;\<close>, \<open>&gt;\<close> and \<open>&amp;\<close>. With
  no entities and a line break the result is \<open><p>\<close>, the characters one by one (a line
  break as \<open></p><p>\<close>, every other character escaped) and \<open></p>\<close>. With entities, none of
  them starting or ending before the start of the text, a result of the full algorithm is
  \<open><p>\<close>, pieces of markup each followed by an escaped segment of the text, and \<open></p>\<close>,
  and the segments make up the message.
\<close>

theorem html_text_escaped:
  assumes "lower ty = ''html''" and "init msg ents = Inr self"
  shows "(falsy ents \<longrightarrow> nl \<in> set msg \<longrightarrow>
            convert msg ents ty =
              Inr (ustr ''<p>'' @
                   concat (map (\<lambda>c. if c = nl then ustr ''</p><p>'' else escape [c]) msg) @
                   ustr ''</p>'')) \<and>
         (\<forall>s. \<not> (falsy ents \<and> nl \<notin> set msg) \<longrightarrow>
            (\<forall>e\<in>set (entity_list ents). 0 \<le> offset e \<and> 0 \<le> offset e + length_e e) \<longrightarrow>
            convert msg ents ty = Inr s \<longrightarrow>
            (\<exists>xs. concat (map snd xs) = msg \<and> s = ustr ''<p>'' @ pieces xs @ ustr ''</p>'')) \<and>
         escape (ustr ''<'') = ustr ''&lt;'' \<and> escape (ustr ''>'') = ustr ''&gt;'' \<and>
         escape (ustr ''&'') = ustr ''&amp;''"
proof -
  have pc: "plain_char (Tag (ustr ''<p>'') (ustr ''</p>'')) =
        (\<lambda>c. if c = nl then ustr ''</p><p>'' else escape [c])"
    by (rule ext) (simp add: plain_char_def ustr_def)
  note p = paragraph_tag_html [OF assms(1)]
  have plain: "falsy ents \<longrightarrow> nl \<in> set msg \<longrightarrow>
            convert msg ents ty =
              Inr (ustr ''<p>'' @
                   concat (map (\<lambda>c. if c = nl then ustr ''</p><p>'' else escape [c]) msg) @
                   ustr ''</p>'')"
    using convert_plain [OF assms(2), of ty] by (simp add: p pc)
  have full: "\<forall>s. \<not> (falsy ents \<and> nl \<notin> set msg) \<longrightarrow>
            (\<forall>e\<in>set (entity_list ents). 0 \<le> offset e \<and> 0 \<le> offset e + length_e e) \<longrightarrow>
            convert msg ents ty = Inr s \<longrightarrow>
            (\<exists>xs. concat (map snd xs) = msg \<and> s = ustr ''<p>'' @ pieces xs @ ustr ''</p>'')"
    using full_algorithm_text [OF assms(2), of ty] by (simp add: p)
  from plain full show ?thesis by (simp add: escape_chars)
qed

theorem html_text_escaped_witness:
  "convert (ustr ''a<b'' @ [nl] @ ustr ''&>'') None ''HTML'' =
     Inr (ustr ''<p>a&lt;b</p><p>&amp;&gt;</p>'')"
proof -
  have "valid (ustr ''a<b'' @ [nl] @ ustr ''&>'')" by (simp add: valid_def ustr_def nl_def)
  then obtain self where i: "init (ustr ''a<b'' @ [nl] @ ustr ''&>'') None = Inr self"
    using init_valid by blast
  have h: "lower ''HTML'' = ''html''" by code_simp
  have f: "falsy None" by (simp add: falsy_def)
  have n: "nl \<in> set (ustr ''a<b'' @ [nl] @ ustr ''&>'')" by simp
  from html_text_escaped [OF h i] f n
  have "convert (ustr ''a<b'' @ [nl] @ ustr ''&>'') None ''HTML'' =
          Inr (ustr ''<p>'' @
               concat (map (\<lambda>c. if c = nl then ustr ''</p><p>'' else escape [c])
                 (ustr ''a<b'' @ [nl] @ ustr ''&>'')) @
               ustr ''</p>'')"
    by blast
  then show ?thesis
    by (simp add: escape_def replace_def ustr_def nl_def dq_def)
qed

text \<open>
  Claim C9. The same holds under every other syntax (markdown, docuwiki and the
  plain-text default): the text is passed through the HTML \<open>escape\<close> there too, so
  \<open>&\<close>, \<open><\<close>, \<open>>\<close>, the double quote and the apostrophe come out as character references;
  only the paragraph tag differs, it is a bare line break at the end.
\<close>

theorem other_syntaxes_escape_text:
  assumes "lower ty \<noteq> ''html''" and "init msg ents = Inr self"
  shows "(falsy ents \<longrightarrow> nl \<in> set msg \<longrightarrow>
            convert msg ents ty =
              Inr (concat (map (\<lambda>c. if c = nl then [nl] else escape [c]) msg) @ [nl])) \<and>
         (\<forall>s. \<not> (falsy ents \<and> nl \<notin> set msg) \<longrightarrow>
            (\<forall>e\<in>set (entity_list ents). 0 \<le> offset e \<and> 0 \<le> offset e + length_e e) \<longrightarrow>
            convert msg ents ty = Inr s \<longrightarrow>
            (\<exists>xs. concat (map snd xs) = msg \<and> s = pieces xs @ [nl])) \<and>
         escape (ustr ''&'') = ustr ''&amp;'' \<and> escape (ustr ''<'') = ustr ''&lt;'' \<and>
         escape (ustr ''>'') = ustr ''&gt;'' \<and> escape [dq] = ustr ''&quot;'' \<and>
         escape [39] = ustr ''&#x27;''"
proof -
  have pc: "plain_char (Tag [] [nl]) = (\<lambda>c. if c = nl then [nl] else escape [c])"
    by (rule ext) (simp add: plain_char_def)
  note p = paragraph_tag_other [OF assms(1)]
  have plain: "falsy ents \<longrightarrow> nl \<in> set msg \<longrightarrow>
            convert msg ents ty =
              Inr (concat (map (\<lambda>c. if c = nl then [nl] else escape [c]) msg) @ [nl])"
    using convert_plain [OF assms(2), of ty] by (simp add: p pc)
  have full: "\<forall>s. \<not> (falsy ents \<and> nl \<notin> set msg) \<longrightarrow>
            (\<forall>e\<in>set (entity_list ents). 0 \<le> offset e \<and> 0 \<le> offset e + length_e e) \<longrightarrow>
            convert msg ents ty = Inr s \<longrightarrow>
            (\<exists>xs. concat (map snd xs) = msg \<and> s = pieces xs @ [nl])"
    using full_algorithm_text [OF assms(2), of ty] by (simp add: p)
  from plain full show ?thesis by (simp add: escape_chars)
qed

theorem other_syntaxes_escape_text_witness:
  "convert (ustr ''a&b'' @ [nl] @ ustr ''c'') None ''markdown'' = Inr (ustr ''a&amp;b'' @ [nl] @ ustr ''c'' @ [nl])"
proof -
  have "valid (ustr ''a&b'' @ [nl] @ ustr ''c'')" by (simp add: valid_def ustr_def nl_def)
  then obtain self where i: "init (ustr ''a&b'' @ [nl] @ ustr ''c'') None = Inr self"
    using init_valid by blast
  have h: "lower ''markdown'' \<noteq> ''html''" by (simp add: lower_def lower_char_def)
  have f: "falsy None" by (simp add: falsy_def)
  have n: "nl \<in> set (ustr ''a&b'' @ [nl] @ ustr ''c'')" by simp
  from other_syntaxes_escape_text [OF h i] f n
  have "convert (ustr ''a&b'' @ [nl] @ ustr ''c'') None ''markdown'' =
          Inr (concat (map (\<lambda>c. if c = nl then [nl] else escape [c])
                 (ustr ''a&b'' @ [nl] @ ustr ''c'')) @ [nl])"
    by blast
  then show ?thesis
    by (simp add: escape_def replace_def ustr_def nl_def dq_def)
qed

end
